theory Spec2Isabelle
  imports Complex_Main "HOL-Library.Sublist" "HOL-Library.AList"
begin

section \<open>Collaborators of the streaming client\<close>

text \<open>
  Modelled from the spec: the \<open>Time\<close> class and the \<open>TIME_UNIT\<close> enum of
  \<open>lib/util/time\<close> are not among the sources. A \<open>Time\<close> is a quantity with a unit, and
  \<open>milliseconds\<close> converts it ("default ~1 minute", "default ~3 minutes").
\<close>

datatype TIME_UNIT = MINUTES | SECONDS | MILLISECONDS

datatype Time = Time nat TIME_UNIT

fun milliseconds :: "Time \<Rightarrow> nat" where
  "milliseconds (Time q MINUTES) = q * 60 * 1000"
| "milliseconds (Time q SECONDS) = q * 1000"
| "milliseconds (Time q MILLISECONDS) = q"

text \<open>
  Modelled from the spec: the class \<open>SfdxError\<close> of \<open>lib/sfdxError\<close> is not among the
  sources. An error carries a message and the name that callers test ("a stable
  discriminator field"); \<open>new SfdxError(message, name)\<close> sets both. \<open>SfdxError.create\<close>
  reads its message from a bundle: the model keeps the bundle key and the tokens in the
  place of the text, and the key as the name until the caller assigns one.
\<close>

record SfdxError =
  message :: string
  name :: string

definition SfdxError_new :: "string \<Rightarrow> string \<Rightarrow> SfdxError" where
  "SfdxError_new msg nm = \<lparr>message = msg, name = nm\<rparr>"

definition SfdxError_create :: "string \<Rightarrow> string \<Rightarrow> string \<Rightarrow> string list \<Rightarrow> SfdxError" where
  "SfdxError_create pkg bundle key tokens =
     \<lparr>message = concat (key # map (\<lambda>t. CHR '' '' # t) tokens), name = key\<rparr>"

text \<open>
  Modelled from the spec: the class \<open>Org\<close> of \<open>lib/org\<close> is not among the sources. The
  streaming client reads two values through it, "connection target
  <instanceUrl>/cometd/<apiVersion>" and "Authorization: OAuth <accessToken>": the instance
  URL of the credential fields and the access token of the connection options. Either may
  be undefined.
\<close>

record Org =
  instanceUrl :: "string option"
  accessToken :: "string option"

text \<open>
  Modelled from the spec: the interface \<open>StatusResult<T>\<close> of \<open>./client\<close> is not among the
  sources: "a completion indicator plus optional payload".
\<close>

record 'p StatusResult =
  completed :: bool
  payload :: "'p option"

text \<open>
  What a call of the stream processor does: it throws (\<open>Inl\<close>), or returns a result, which
  JavaScript allows to be null or undefined (\<open>Inr None\<close>).
\<close>

type_synonym ('m, 'p) processor = "'m \<Rightarrow> SfdxError + 'p StatusResult option"

text \<open>
  The comet client is an abstract class: the model records what the streaming client has
  set on it. The field \<open>dispatcher\<close> is the property \<open>_dispatcher\<close> that the private
  \<open>disconnect\<close> looks up: the client of the Faye library has it, with a client id once a
  handshake has succeeded, and a mock need not have it. \<open>Faye_Client\<close> stands for
  \<open>new Faye.Client(url)\<close> of that library.
\<close>

record Dispatcher =
  clientId :: "string option"
  closed :: bool

record CometClient =
  url :: string
  headers :: "(string \<times> string) list"
  disabled :: "string list"
  extensions :: "string list"
  listeners :: "string list"
  dispatcher :: "Dispatcher option"

definition Faye_Client :: "string \<Rightarrow> CometClient" where
  "Faye_Client u =
     \<lparr>url = u, headers = [], disabled = [], extensions = [], listeners = [],
      dispatcher = Some \<lparr>clientId = None, closed = False\<rparr>\<rparr>"

definition setHeader :: "string \<Rightarrow> string \<Rightarrow> CometClient \<Rightarrow> CometClient" where
  "setHeader k v c = c\<lparr>headers := AList.update k v (headers c)\<rparr>"

definition disable :: "string \<Rightarrow> CometClient \<Rightarrow> CometClient" where
  "disable label c = c\<lparr>disabled := disabled c @ [label]\<rparr>"

definition addExtension :: "string \<Rightarrow> CometClient \<Rightarrow> CometClient" where
  "addExtension hook c = c\<lparr>extensions := extensions c @ [hook]\<rparr>"

definition on :: "string \<Rightarrow> CometClient \<Rightarrow> CometClient" where
  "on ev c = c\<lparr>listeners := listeners c @ [ev]\<rparr>"

section \<open>Streaming options\<close>

record ('m, 'p) StreamingOptions =
  org :: Org
  subscribeTimeout :: Time
  handshakeTimeout :: Time
  channel :: string
  apiVersion :: string
  streamProcessor :: "('m, 'p) processor"
  getCometClient :: "string \<Rightarrow> CometClient"

text \<open>
  The constructor of \<open>DefaultStreamingOptions\<close>. A missing organization or processor is
  \<open>None\<close>; a string argument is falsy when it is empty. The four checks are made in the
  order of the source, then the api version is stored and replaced by 36.0 when
  \<open>_.startsWith(apiVersion, '/system')\<close>. Logging (\<open>setLogger\<close>) is left out of the model.
\<close>

definition DefaultStreamingOptions ::
  "Org option \<Rightarrow> string \<Rightarrow> string \<Rightarrow> ('m, 'p) processor option
     \<Rightarrow> SfdxError + ('m, 'p) StreamingOptions" where
  "DefaultStreamingOptions org_arg apiVersion_arg channel_arg streamProcessor_arg =
     (if apiVersion_arg = [] then Inl (SfdxError_new ''Missing apiVersion'' ''MissingArg'')
      else case streamProcessor_arg of
        None \<Rightarrow> Inl (SfdxError_new ''Missing stream processor'' ''MissingArg'')
      | Some sp \<Rightarrow>
         (case org_arg of
            None \<Rightarrow> Inl (SfdxError_new ''Missing org'' ''MissingArg'')
          | Some og \<Rightarrow>
             if channel_arg = [] then Inl (SfdxError_new ''Missing streaming channel'' ''MissingArg'')
             else Inr \<lparr>org = og,
                       subscribeTimeout = Time 3 MINUTES,
                       handshakeTimeout = Time 1 MINUTES,
                       channel = channel_arg,
                       apiVersion = (if prefix ''/system'' apiVersion_arg then ''36.0''
                                     else apiVersion_arg),
                       streamProcessor = sp,
                       getCometClient = Faye_Client\<rparr>))"

section \<open>The streaming client\<close>

record ('m, 'p) StreamingClient =
  targetUrl :: string
  options :: "('m, 'p) StreamingOptions"
  cometClient :: CometClient

fun join_with :: "string \<Rightarrow> string list \<Rightarrow> string" where
  "join_with sep [] = []"
| "join_with sep [x] = x"
| "join_with sep (x # y # xs) = x @ sep @ join_with sep (y # xs)"

text \<open>
  The private constructor: the target URL is \<open>[instanceUrl, 'cometd', apiVersion].join('/')\<close>
  (an undefined instance URL joins as the empty string), the comet client is built by the
  options' implementation, the two transport listeners and the \<open>incoming\<close> extension are
  registered, and the websocket transport is disabled.
\<close>

definition StreamingClient_new :: "('m, 'p) StreamingOptions \<Rightarrow> ('m, 'p) StreamingClient" where
  "StreamingClient_new opts =
     (let instance = (case instanceUrl (org opts) of None \<Rightarrow> [] | Some u \<Rightarrow> u);
          target = join_with ''/'' [instance, ''cometd'', apiVersion opts];
          c0 = getCometClient opts target;
          c1 = on ''transport:up'' c0;
          c2 = on ''transport:down'' c1;
          c3 = addExtension ''incoming'' c2;
          c4 = disable ''websocket'' c3
      in \<lparr>targetUrl = target, options = opts, cometClient = c4\<rparr>)"

text \<open>
  \<open>StreamingClient.init\<close>. The organization's \<open>refreshAuth\<close> is a request to the platform:
  it is a parameter that fails or gives the organization as the refresh leaves it. The
  access token is read after the refresh; \<open>accessToken && accessToken.length > 5\<close> holds for
  a defined token of more than five characters.
\<close>

definition init ::
  "(Org \<Rightarrow> SfdxError + Org) \<Rightarrow> ('m, 'p) StreamingOptions \<Rightarrow> SfdxError + ('m, 'p) StreamingClient" where
  "init refreshAuth opts =
     (let streamingClient = StreamingClient_new opts in
      case refreshAuth (org opts) of
        Inl e \<Rightarrow> Inl e
      | Inr refreshed \<Rightarrow>
         (let sc = streamingClient\<lparr>options := opts\<lparr>org := refreshed\<rparr>\<rparr> in
          case accessToken refreshed of
            None \<Rightarrow> Inl (SfdxError_new ''Missing or invalid access token''
                                      ''MissingOrInvalidAcc essToken'')
          | Some tok \<Rightarrow>
             if length tok > 5
             then Inr (sc\<lparr>cometClient :=
                          setHeader ''Authorization'' (''OAuth '' @ tok) (cometClient sc)\<rparr>)
             else Inl (SfdxError_new ''Missing or invalid access token''
                                     ''MissingOrInvalidAcc essToken'')))"

text \<open>Fixtures: an organization and options as the default constructor builds them.\<close>

definition example_org :: Org where
  "example_org = \<lparr>instanceUrl = Some ''https://na1.example.com'', accessToken = Some ''00Dxx!token''\<rparr>"

definition example_processor :: "(string, string) processor" where
  "example_processor m =
     (if m = ''boom'' then Inl (SfdxError_new ''Not found.'' ''NotFound'')
      else if m = ''null'' then Inr None
      else if m = ''wait'' then Inr (Some \<lparr>completed = False, payload = None\<rparr>)
      else Inr (Some \<lparr>completed = True, payload = Some m\<rparr>))"

definition example_options :: "(string, string) StreamingOptions" where
  "example_options =
     \<lparr>org = example_org, subscribeTimeout = Time 3 MINUTES, handshakeTimeout = Time 1 MINUTES,
      channel = ''/topic/Results'', apiVersion = ''42.0'', streamProcessor = example_processor,
      getCometClient = Faye_Client\<rparr>"

definition example_client :: "(string, string) StreamingClient" where
  "example_client = StreamingClient_new example_options"

text \<open>A client whose comet client is a mock without the \<open>_dispatcher\<close> property.\<close>

definition mock_client :: "(string, string) StreamingClient" where
  "mock_client =
     StreamingClient_new (example_options\<lparr>getCometClient :=
        (\<lambda>u. \<lparr>url = u, headers = [], disabled = [], extensions = [], listeners = [],
               dispatcher = None\<rparr>)\<rparr>)"

section \<open>Promises, timers and the calls of a lifecycle\<close>

text \<open>
  A promise is settled once: \<open>resolve\<close> and \<open>reject\<close> act on a pending promise and leave a
  settled one as it is.
\<close>

datatype 'a promise = Pending | Resolved 'a | Rejected SfdxError

fun resolve :: "'a \<Rightarrow> 'a promise \<Rightarrow> 'a promise" where
  "resolve v Pending = Resolved v"
| "resolve v p = p"

fun reject :: "SfdxError \<Rightarrow> 'a promise \<Rightarrow> 'a promise" where
  "reject e Pending = Rejected e"
| "reject e p = p"

text \<open>
  A single-shot timer: \<open>setTimeout(f, d)\<close> arms it for \<open>d\<close> milliseconds, \<open>clearTimeout\<close>
  cancels an armed timer and does nothing to one that has fired or has never been set.
\<close>

datatype timer = NotStarted | Armed nat | Cleared | Fired

fun clearTimeout :: "timer \<Rightarrow> timer" where
  "clearTimeout (Armed d) = Cleared"
| "clearTimeout t = t"

fun armed :: "timer \<Rightarrow> bool" where
  "armed (Armed d) = True"
| "armed t = False"

datatype StreamingConnectionState = CONNECTED

datatype StreamingTimeoutError = HANDSHAKE | SUBSCRIBE

fun timeout_name :: "StreamingTimeoutError \<Rightarrow> string" where
  "timeout_name HANDSHAKE = ''handshake''"
| "timeout_name SUBSCRIBE = ''subscribe''"

text \<open>The calls a lifecycle makes, in the order in which it makes them.\<close>

datatype 'a action =
    InvokeStreamInit
  | SetTimeout nat
  | ClearTimeout
  | CometHandshake
  | CometSubscribe string
  | CometDisconnect
  | DispatcherClose
  | SettleResolve 'a
  | SettleReject SfdxError

record 'a lifecycle =
  timer :: timer
  promise :: "'a promise"
  comet :: CometClient
  trace :: "'a action list"

text \<open>The calls on the transport that end a connection.\<close>

fun transport_calls :: "'a action list \<Rightarrow> 'a action list" where
  "transport_calls [] = []"
| "transport_calls (CometDisconnect # as) = CometDisconnect # transport_calls as"
| "transport_calls (DispatcherClose # as) = DispatcherClose # transport_calls as"
| "transport_calls (a # as) = transport_calls as"

text \<open>
  The private \<open>disconnect\<close>: nothing without a dispatcher; with one, \<open>dispatcher.close()\<close> when
  its client id is falsy (undefined or empty) and \<open>cometClient.disconnect()\<close> otherwise.
  \<open>doTimeout\<close> disconnects and then clears the timer.
\<close>

definition disconnect :: "('a, 'z) lifecycle_scheme \<Rightarrow> ('a, 'z) lifecycle_scheme" where
  "disconnect s =
     (case dispatcher (comet s) of
        None \<Rightarrow> s
      | Some dp \<Rightarrow>
         if clientId dp = None \<or> clientId dp = Some []
         then s\<lparr>comet := (comet s)\<lparr>dispatcher := Some (dp\<lparr>closed := True\<rparr>)\<rparr>,
                trace := trace s @ [DispatcherClose]\<rparr>
         else s\<lparr>trace := trace s @ [CometDisconnect]\<rparr>)"

definition doTimeout :: "('a, 'z) lifecycle_scheme \<Rightarrow> ('a, 'z) lifecycle_scheme" where
  "doTimeout s =
     (let s1 = disconnect s
      in s1\<lparr>timer := clearTimeout (timer s1), trace := trace s1 @ [ClearTimeout]\<rparr>)"

section \<open>handshake\<close>

text \<open>
  \<open>handshake()\<close> arms the timer with \<open>options.handshakeTimeout.milliseconds\<close> and asks the comet
  client to handshake. The callback of the timer names the error \<open>handshake\<close>, runs
  \<open>doTimeout\<close> and rejects; the callback of the handshake clears the timer and resolves.
\<close>

definition handshake_start :: "('m, 'p) StreamingClient \<Rightarrow> StreamingConnectionState lifecycle" where
  "handshake_start c =
     \<lparr>timer = Armed (milliseconds (handshakeTimeout (options c))),
      promise = Pending,
      comet = cometClient c,
      trace = [SetTimeout (milliseconds (handshakeTimeout (options c))), CometHandshake]\<rparr>"

definition handshake_timeout ::
  "('m, 'p) StreamingClient \<Rightarrow> StreamingConnectionState lifecycle \<Rightarrow> StreamingConnectionState lifecycle" where
  "handshake_timeout c s =
     (let timeoutError =
            (SfdxError_create ''@salesforce/core'' ''streaming'' ''genericHandshakeTimeoutMessage''
               [targetUrl c])\<lparr>name := timeout_name HANDSHAKE\<rparr>;
          s1 = doTimeout (s\<lparr>timer := Fired\<rparr>)
      in s1\<lparr>promise := reject timeoutError (promise s1),
             trace := trace s1 @ [SettleReject timeoutError]\<rparr>)"

definition handshake_response ::
  "StreamingConnectionState lifecycle \<Rightarrow> StreamingConnectionState lifecycle" where
  "handshake_response s =
     s\<lparr>timer := clearTimeout (timer s),
       promise := resolve CONNECTED (promise s),
       trace := trace s @ [ClearTimeout, SettleResolve CONNECTED]\<rparr>"

text \<open>
  The event loop of a handshake. The transport calls the handshake callback at the given
  times, in milliseconds after the call of \<open>handshake()\<close>. An armed timer of \<open>d\<close> milliseconds
  runs its callback before a response that comes at \<open>d\<close> or later, and when no response is
  left.
\<close>

fun handshake_loop ::
  "('m, 'p) StreamingClient \<Rightarrow> nat list \<Rightarrow> StreamingConnectionState lifecycle
     \<Rightarrow> StreamingConnectionState lifecycle" where
  "handshake_loop c [] s = (if armed (timer s) then handshake_timeout c s else s)"
| "handshake_loop c (t # ts) s =
     (case timer s of
        Armed d \<Rightarrow>
          if d \<le> t then handshake_loop c ts (handshake_response (handshake_timeout c s))
          else handshake_loop c ts (handshake_response s)
      | _ \<Rightarrow> handshake_loop c ts (handshake_response s))"

definition handshake :: "('m, 'p) StreamingClient \<Rightarrow> nat list \<Rightarrow> StreamingConnectionState lifecycle" where
  "handshake c responses = handshake_loop c responses (handshake_start c)"

section \<open>subscribe\<close>

text \<open>
  What the caller's \<open>streamInit\<close> does when it is called: its promise resolves or rejects, or
  the call itself throws.
\<close>

datatype stream_init = InitResolves | InitRejects SfdxError | InitThrows SfdxError

text \<open>What the transport delivers for a registered subscription.\<close>

datatype 'm channel_event = SubscriptionAck | SubscriptionErr SfdxError | Message 'm

record 'a subscribing = "'a lifecycle" +
  subscription :: "unit promise"

text \<open>
  The executor of the outer promise calls \<open>streamInit()\<close> first. A throw rejects the outer
  promise; a rejected promise leaves the outer promise pending with nothing registered.
  Once \<open>streamInit\<close> has resolved, the \<open>then\<close> callback arms the timer with
  \<open>options.handshakeTimeout.milliseconds\<close> and registers the channel with the comet client.
\<close>

definition subscribe_start ::
  "('m, 'p) StreamingClient \<Rightarrow> stream_init \<Rightarrow> 'p option subscribing" where
  "subscribe_start c streamInit =
     (let s0 = \<lparr>timer = NotStarted, promise = Pending, comet = cometClient c,
                trace = [InvokeStreamInit], subscription = Pending\<rparr>
      in case streamInit of
           InitThrows e \<Rightarrow> s0\<lparr>promise := Rejected e\<rparr>
         | InitRejects e \<Rightarrow> s0
         | InitResolves \<Rightarrow>
             s0\<lparr>timer := Armed (milliseconds (handshakeTimeout (options c))),
                trace := trace s0 @ [SetTimeout (milliseconds (handshakeTimeout (options c))),
                                     CometSubscribe (channel (options c))]\<rparr>)"

definition subscribe_timeout ::
  "('m, 'p) StreamingClient \<Rightarrow> 'p option subscribing \<Rightarrow> 'p option subscribing" where
  "subscribe_timeout c s =
     (let timeoutError =
            (SfdxError_create ''@salesforce/core'' ''streaming'' ''genericTimeoutMessage'' [])
               \<lparr>name := timeout_name SUBSCRIBE\<rparr>;
          s1 = doTimeout (s\<lparr>timer := Fired\<rparr>)
      in s1\<lparr>promise := reject timeoutError (promise s1),
             trace := trace s1 @ [SettleReject timeoutError]\<rparr>)"

text \<open>
  The callback given to \<open>cometClient.subscribe\<close>: the processor runs on the message; a
  truthy result with \<open>completed\<close> clears the timer, calls \<open>cometClient.disconnect()\<close> and
  resolves with the payload; any other result does nothing; a throw clears the timer and
  rejects.
\<close>

definition on_message ::
  "('m, 'p) StreamingClient \<Rightarrow> 'm \<Rightarrow> 'p option subscribing \<Rightarrow> 'p option subscribing" where
  "on_message c m s =
     (case streamProcessor (options c) m of
        Inl e \<Rightarrow>
          s\<lparr>timer := clearTimeout (timer s),
            promise := reject e (promise s),
            trace := trace s @ [ClearTimeout, SettleReject e]\<rparr>
      | Inr None \<Rightarrow> s
      | Inr (Some result) \<Rightarrow>
          if completed result
          then s\<lparr>timer := clearTimeout (timer s),
                 promise := resolve (payload result) (promise s),
                 trace := trace s @ [ClearTimeout, CometDisconnect, SettleResolve (payload result)]\<rparr>
          else s)"

text \<open>
  The acknowledgment resolves the inner promise and nothing follows it. A registration
  error rejects the inner promise, if it is still pending, and its \<open>catch\<close> clears the timer
  and rejects the outer promise.
\<close>

definition on_event ::
  "('m, 'p) StreamingClient \<Rightarrow> 'm channel_event \<Rightarrow> 'p option subscribing \<Rightarrow> 'p option subscribing" where
  "on_event c ev s =
     (case ev of
        SubscriptionAck \<Rightarrow> s\<lparr>subscription := resolve () (subscription s)\<rparr>
      | SubscriptionErr e \<Rightarrow>
          (case subscription s of
             Pending \<Rightarrow>
               s\<lparr>subscription := Rejected e,
                 timer := clearTimeout (timer s),
                 promise := reject e (promise s),
                 trace := trace s @ [ClearTimeout, SettleReject e]\<rparr>
           | _ \<Rightarrow> s)
      | Message m \<Rightarrow> on_message c m s)"

text \<open>
  The event loop of a subscription: the events come with their times, in milliseconds after
  the timer was armed, and the timer's callback runs as in the handshake.
\<close>

fun subscribe_loop ::
  "('m, 'p) StreamingClient \<Rightarrow> (nat \<times> 'm channel_event) list \<Rightarrow> 'p option subscribing
     \<Rightarrow> 'p option subscribing" where
  "subscribe_loop c [] s = (if armed (timer s) then subscribe_timeout c s else s)"
| "subscribe_loop c ((t, ev) # evs) s =
     (case timer s of
        Armed d \<Rightarrow>
          if d \<le> t then subscribe_loop c evs (on_event c ev (subscribe_timeout c s))
          else subscribe_loop c evs (on_event c ev s)
      | _ \<Rightarrow> subscribe_loop c evs (on_event c ev s))"

text \<open>Nothing is delivered when \<open>streamInit\<close> has not resolved: no channel is registered.\<close>

definition subscribe ::
  "('m, 'p) StreamingClient \<Rightarrow> stream_init \<Rightarrow> (nat \<times> 'm channel_event) list
     \<Rightarrow> 'p option subscribing" where
  "subscribe c streamInit evs =
     (case streamInit of
        InitResolves \<Rightarrow> subscribe_loop c evs (subscribe_start c streamInit)
      | _ \<Rightarrow> subscribe_start c streamInit)"

text \<open>
  The state in which an event finds a subscription: \<open>expire\<close> runs the timer's callback
  when the event comes at or after the deadline, as \<open>subscribe_loop\<close> does before it hands
  the event over, and \<open>subscribe_events\<close> is the loop over the events that came before,
  without the timeout that ends a run.
\<close>

definition expire ::
  "('m, 'p) StreamingClient \<Rightarrow> nat \<Rightarrow> 'p option subscribing \<Rightarrow> 'p option subscribing" where
  "expire c t s =
     (case timer s of
        Armed d \<Rightarrow> if d \<le> t then subscribe_timeout c s else s
      | _ \<Rightarrow> s)"

fun subscribe_events ::
  "('m, 'p) StreamingClient \<Rightarrow> (nat \<times> 'm channel_event) list \<Rightarrow> 'p option subscribing
     \<Rightarrow> 'p option subscribing" where
  "subscribe_events c [] s = s"
| "subscribe_events c ((t, ev) # evs) s = subscribe_events c evs (on_event c ev (expire c t s))"

text \<open>A client whose processor throws on every message, with an error of its own for boom.\<close>

definition picky_processor :: "(string, string) processor" where
  "picky_processor m =
     (if m = ''boom'' then Inl (SfdxError_new ''Not found.'' ''NotFound'')
      else Inl (SfdxError_new ''Bad state.'' ''BadState''))"

definition picky_client :: "(string, string) StreamingClient" where
  "picky_client = StreamingClient_new (example_options\<lparr>streamProcessor := picky_processor\<rparr>)"

section \<open>Organization: scratch org check and api versions\<close>

text \<open>
  Modelled from the spec: \<open>Org.checkScratchOrg\<close> is not among the sources (only its unit
  test is). The spec: it "queries a well-known scratch-org registry object by organization
  id through the session handle. Zero rows: fails NoResults. A query error whose kind is
  INVALID_TYPE: fails NotADevHub. Otherwise merges the returned row's fields into the
  Credential Record and returns them"; every other error propagates unmodified. The query
  is the session's: its outcome is a parameter. The credential record is the one the
  session holds, so the function gives back the fields it returns and the record as it
  leaves it. The spec names the errors and not their messages.
\<close>

type_synonym AuthFields = "string \<rightharpoonup> string"

datatype QueryResult = QueryRecords "AuthFields list" | QueryFails SfdxError

definition checkScratchOrg ::
  "QueryResult \<Rightarrow> AuthFields \<Rightarrow> SfdxError + (AuthFields \<times> AuthFields)" where
  "checkScratchOrg queried credential =
     (case queried of
        QueryFails err \<Rightarrow>
          if name err = ''INVALID_TYPE'' then Inl (SfdxError_new ''Not a devhub'' ''NotADevHub'')
          else Inl err
      | QueryRecords [] \<Rightarrow> Inl (SfdxError_new ''No results'' ''NoResults'')
      | QueryRecords (row # rows) \<Rightarrow>
          (let merged = credential ++ row in Inr (merged, merged)))"

text \<open>
  Modelled from the spec: \<open>Org.retrieveMaxApiVersion\<close> is not among the sources (only its
  unit test is). The spec: it "queries the platform's exposed API-version list; returns the
  numerically greatest version string", the list being one of \<open>{version}\<close> entries. A
  version string is read as a decimal number, digits with an optional fraction; the first
  of the entries of greatest value is returned. The spec says nothing of an empty list
  (no result here) and of an entry that is not a number (never preferred to a number here).
\<close>

record ApiVersion =
  version :: string

definition digit_of :: "char \<Rightarrow> nat option" where
  "digit_of c = (let n = (of_char c :: nat) in if 48 \<le> n \<and> n \<le> 57 then Some (n - 48) else None)"

fun digits_value :: "nat \<Rightarrow> string \<Rightarrow> nat option" where
  "digits_value acc [] = Some acc"
| "digits_value acc (c # cs) =
     (case digit_of c of None \<Rightarrow> None | Some d \<Rightarrow> digits_value (10 * acc + d) cs)"

definition version_value :: "string \<Rightarrow> rat option" where
  "version_value s =
     (let whole = takeWhile (\<lambda>c. c \<noteq> CHR ''.'') s;
          rest = dropWhile (\<lambda>c. c \<noteq> CHR ''.'') s
      in if whole = [] then None
         else (case digits_value 0 whole of
           None \<Rightarrow> None
         | Some i \<Rightarrow>
            (case rest of
               [] \<Rightarrow> Some (of_nat i)
             | dot # fraction \<Rightarrow>
                if fraction = [] then None
                else (case digits_value 0 fraction of
                  None \<Rightarrow> None
                | Some f \<Rightarrow> Some (of_nat i + of_nat f / 10 ^ length fraction)))))"

definition numerically_less :: "string \<Rightarrow> string \<Rightarrow> bool" where
  "numerically_less a b =
     (case version_value b of
        None \<Rightarrow> False
      | Some y \<Rightarrow> (case version_value a of None \<Rightarrow> True | Some x \<Rightarrow> x < y))"

definition retrieveMaxApiVersion :: "ApiVersion list \<Rightarrow> string option" where
  "retrieveMaxApiVersion versions =
     (case versions of
        [] \<Rightarrow> None
      | v # vs \<Rightarrow>
          Some (version (fold (\<lambda>x best. if numerically_less (version best) (version x) then x
                                         else best) vs v)))"

section \<open>Reading a JSON file\<close>

text \<open>
  Modelled from the spec: \<open>SfdxUtil.readJSON\<close> is not among the sources (only its unit test
  is). The spec: reading "parses file text; on empty content, fails with a ParseError
  stating no content at line 1; on any other malformed content, fails with a ParseError
  naming the file path and the 1-based line number of the first structurally invalid
  token", found by "scanning the raw text". The model splits the text into JSON tokens,
  runs the JSON grammar over them as a pushdown automaton, and counts the line breaks
  before the first token the grammar refuses (the end of the text, when the text ends too
  early). The text of the message for empty content is the one the unit test expects; of
  the error for malformed content the spec fixes the file and the line only, and \<open>detail\<close>
  is left empty. The value of a well-formed document is not built. What a well-formed
  document is, is said a second time, by the grammar \<open>json_value\<close> below, and the automaton
  is proved to refuse what the grammar refuses, at the first token that no well-formed
  document continues.
\<close>

datatype token = LBrace | RBrace | LBracket | RBracket | Colon | Comma | Str | Num | Lit | Bad

definition is_ws :: "char \<Rightarrow> bool" where
  "is_ws c = (c = CHR '' '' \<or> c = CHR 0x0A \<or> c = CHR 0x0D \<or> c = CHR 0x09)"

definition punctuation :: "char \<Rightarrow> token option" where
  "punctuation c =
     (if c = CHR ''{'' then Some LBrace else if c = CHR ''}'' then Some RBrace
      else if c = CHR ''['' then Some LBracket else if c = CHR '']'' then Some RBracket
      else if c = CHR '':'' then Some Colon else if c = CHR '','' then Some Comma
      else None)"

definition is_word_char :: "char \<Rightarrow> bool" where
  "is_word_char c =
     (let n = (of_char c :: nat)
      in (48 \<le> n \<and> n \<le> 57) \<or> (65 \<le> n \<and> n \<le> 90) \<or> (97 \<le> n \<and> n \<le> 122)
         \<or> c = CHR ''-'' \<or> c = CHR ''+'' \<or> c = CHR ''.'')"

text \<open>The JSON number grammar as an automaton over the characters of a word.\<close>

datatype num_state = NStart | NMinus | NZero | NInt | NDot | NFrac | NExpMark | NExpSign | NExp

definition num_step :: "num_state \<Rightarrow> char \<Rightarrow> num_state option" where
  "num_step q c =
     (let digit = (digit_of c \<noteq> None); e = (c = CHR ''e'' \<or> c = CHR ''E'')
      in case q of
           NStart \<Rightarrow> if c = CHR ''-'' then Some NMinus else if c = CHR ''0'' then Some NZero
                     else if digit then Some NInt else None
         | NMinus \<Rightarrow> if c = CHR ''0'' then Some NZero else if digit then Some NInt else None
         | NZero \<Rightarrow> if c = CHR ''.'' then Some NDot else if e then Some NExpMark else None
         | NInt \<Rightarrow> if digit then Some NInt else if c = CHR ''.'' then Some NDot
                   else if e then Some NExpMark else None
         | NDot \<Rightarrow> if digit then Some NFrac else None
         | NFrac \<Rightarrow> if digit then Some NFrac else if e then Some NExpMark else None
         | NExpMark \<Rightarrow> if c = CHR ''+'' \<or> c = CHR ''-'' then Some NExpSign
                       else if digit then Some NExp else None
         | NExpSign \<Rightarrow> if digit then Some NExp else None
         | NExp \<Rightarrow> if digit then Some NExp else None)"

fun is_number :: "num_state \<Rightarrow> string \<Rightarrow> bool" where
  "is_number q [] = (q = NZero \<or> q = NInt \<or> q = NFrac \<or> q = NExp)"
| "is_number q (c # cs) = (case num_step q c of None \<Rightarrow> False | Some q' \<Rightarrow> is_number q' cs)"

definition classify :: "string \<Rightarrow> token" where
  "classify w =
     (if w = ''true'' \<or> w = ''false'' \<or> w = ''null'' then Lit
      else if is_number NStart w then Num else Bad)"

text \<open>
  The tokens of a text with the offsets at which they start. A string is closed by the
  next quote that no backslash escapes; a backslash is followed by one of the characters
  \<open>" \ / b f n r t\<close> or by \<open>u\<close> and four hexadecimal digits. A character that starts no
  token, a control character or a wrong escape inside a string, and a string that the text
  leaves open are \<open>Bad\<close> tokens; nothing is read after one.
\<close>

definition is_simple_escape :: "char \<Rightarrow> bool" where
  "is_simple_escape c =
     (c = CHR 0x22 \<or> c = CHR 0x5C \<or> c = CHR ''/'' \<or> c = CHR ''b'' \<or> c = CHR ''f''
      \<or> c = CHR ''n'' \<or> c = CHR ''r'' \<or> c = CHR ''t'')"

definition is_hex :: "char \<Rightarrow> bool" where
  "is_hex c =
     (let n = (of_char c :: nat)
      in (48 \<le> n \<and> n \<le> 57) \<or> (65 \<le> n \<and> n \<le> 70) \<or> (97 \<le> n \<and> n \<le> 102))"

datatype lex_mode = Outside | InString nat | InEscape nat | InUnicode nat nat | InWord nat string

function lex :: "lex_mode \<Rightarrow> nat \<Rightarrow> string \<Rightarrow> (nat \<times> token) list" where
  "lex Outside i [] = []"
| "lex (InString b) i [] = [(i, Bad)]"
| "lex (InEscape b) i [] = [(i, Bad)]"
| "lex (InUnicode b k) i [] = [(i, Bad)]"
| "lex (InWord b w) i [] = [(b, classify (rev w))]"
| "lex Outside i (c # cs) =
     (if is_ws c then lex Outside (Suc i) cs
      else if c = CHR 0x22 then lex (InString i) (Suc i) cs
      else case punctuation c of
             Some tk \<Rightarrow> (i, tk) # lex Outside (Suc i) cs
           | None \<Rightarrow> if is_word_char c then lex (InWord i [c]) (Suc i) cs else [(i, Bad)])"
| "lex (InString b) i (c # cs) =
     (if c = CHR 0x22 then (b, Str) # lex Outside (Suc i) cs
      else if c = CHR 0x5C then lex (InEscape b) (Suc i) cs
      else if (of_char c :: nat) < 32 then [(i, Bad)]
      else lex (InString b) (Suc i) cs)"
| "lex (InEscape b) i (c # cs) =
     (if is_simple_escape c then lex (InString b) (Suc i) cs
      else if c = CHR ''u'' then lex (InUnicode b 4) (Suc i) cs
      else [(i, Bad)])"
| "lex (InUnicode b k) i (c # cs) =
     (if is_hex c
      then (if k \<le> 1 then lex (InString b) (Suc i) cs else lex (InUnicode b (k - 1)) (Suc i) cs)
      else [(i, Bad)])"
| "lex (InWord b w) i (c # cs) =
     (if is_word_char c then lex (InWord b (c # w)) (Suc i) cs
      else (b, classify (rev w)) # lex Outside i (c # cs))"
  by pat_completeness auto
termination
  by (relation "measure (\<lambda>(m, i, cs). 2 * length cs + (case m of InWord b w \<Rightarrow> 1 | _ \<Rightarrow> 0))")
     auto

text \<open>
  The grammar: what may come next, and the stack of the containers that are open.
\<close>

datatype expect = AValue | AValueOrClose | AKeyOrClose | AKey | AColon | ACommaOrClose | AEnd

datatype container = InObject | InArray

definition after_value :: "container list \<Rightarrow> expect \<times> container list" where
  "after_value stack = (if stack = [] then (AEnd, stack) else (ACommaOrClose, stack))"

definition start_value :: "container list \<Rightarrow> token \<Rightarrow> (expect \<times> container list) option" where
  "start_value stack tk =
     (case tk of
        Str \<Rightarrow> Some (after_value stack)
      | Num \<Rightarrow> Some (after_value stack)
      | Lit \<Rightarrow> Some (after_value stack)
      | LBrace \<Rightarrow> Some (AKeyOrClose, InObject # stack)
      | LBracket \<Rightarrow> Some (AValueOrClose, InArray # stack)
      | _ \<Rightarrow> None)"

definition grammar_step ::
  "expect \<Rightarrow> container list \<Rightarrow> token \<Rightarrow> (expect \<times> container list) option" where
  "grammar_step e stack tk =
     (case e of
        AValue \<Rightarrow> start_value stack tk
      | AValueOrClose \<Rightarrow>
          if tk = RBracket then Some (after_value (tl stack)) else start_value stack tk
      | AKeyOrClose \<Rightarrow>
          if tk = RBrace then Some (after_value (tl stack))
          else if tk = Str then Some (AColon, stack) else None
      | AKey \<Rightarrow> if tk = Str then Some (AColon, stack) else None
      | AColon \<Rightarrow> if tk = Colon then Some (AValue, stack) else None
      | ACommaOrClose \<Rightarrow>
          (case stack of
             [] \<Rightarrow> None
           | InObject # outer \<Rightarrow>
               if tk = Comma then Some (AKey, stack)
               else if tk = RBrace then Some (after_value outer) else None
           | InArray # outer \<Rightarrow>
               if tk = Comma then Some (AValue, stack)
               else if tk = RBracket then Some (after_value outer) else None)
      | AEnd \<Rightarrow> None)"

text \<open>The offset of the first token that the grammar refuses, if there is one.\<close>

fun first_invalid ::
  "expect \<Rightarrow> container list \<Rightarrow> (nat \<times> token) list \<Rightarrow> nat \<Rightarrow> nat option" where
  "first_invalid e stack [] n = (if e = AEnd then None else Some n)"
| "first_invalid e stack ((i, tk) # rest) n =
     (case grammar_step e stack tk of
        None \<Rightarrow> Some i
      | Some (e', stack') \<Rightarrow> first_invalid e' stack' rest n)"

text \<open>
  Modelled from the spec: what the spec calls well-formed and malformed content is the
  grammar of JSON, here over the tokens: a value is a string, a number, a literal, an
  object \<open>{ "key": value, ... }\<close> or an array \<open>[ value, ... ]\<close>; \<open>object_rest\<close> and
  \<open>array_rest\<close> are what follows the first member of an object and the first element
  of an array. A text is well-formed when its tokens are a value, and a beginning of a
  text is viable when some well-formed document begins with its tokens.
\<close>

inductive json_value :: "token list \<Rightarrow> bool"
  and object_rest :: "token list \<Rightarrow> bool"
  and array_rest :: "token list \<Rightarrow> bool" where
  string_value: "json_value [Str]"
| number_value: "json_value [Num]"
| literal_value: "json_value [Lit]"
| empty_object: "json_value [LBrace, RBrace]"
| object_value: "json_value v \<Longrightarrow> object_rest ro \<Longrightarrow> json_value (LBrace # Str # Colon # v @ ro)"
| empty_array: "json_value [LBracket, RBracket]"
| array_value: "json_value v \<Longrightarrow> array_rest ar \<Longrightarrow> json_value (LBracket # v @ ar)"
| object_end: "object_rest [RBrace]"
| object_more: "json_value v \<Longrightarrow> object_rest ro \<Longrightarrow> object_rest (Comma # Str # Colon # v @ ro)"
| array_end: "array_rest [RBracket]"
| array_more: "json_value v \<Longrightarrow> array_rest ar \<Longrightarrow> array_rest (Comma # v @ ar)"

definition well_formed :: "string \<Rightarrow> bool" where
  "well_formed data = json_value (map snd (lex Outside 0 data))"

definition viable :: "token list \<Rightarrow> bool" where
  "viable ts = (\<exists>suffix. json_value (ts @ suffix))"

text \<open>
  The tokens that the automaton lets pass from a state, said with the grammar: \<open>closes\<close>
  are the tokens that close the open containers, and \<open>expects\<close> what may follow in a state
  of the automaton.
\<close>

fun closes :: "container list \<Rightarrow> token list \<Rightarrow> bool" where
  "closes [] ts = (ts = [])"
| "closes (InObject # st) ts = (\<exists>ro r. ts = ro @ r \<and> object_rest ro \<and> closes st r)"
| "closes (InArray # st) ts = (\<exists>ar r. ts = ar @ r \<and> array_rest ar \<and> closes st r)"

definition value_then :: "container list \<Rightarrow> token list \<Rightarrow> bool" where
  "value_then st ts = (\<exists>v r. ts = v @ r \<and> json_value v \<and> closes st r)"

fun expects :: "expect \<Rightarrow> container list \<Rightarrow> token list \<Rightarrow> bool" where
  "expects AValue st ts = value_then st ts"
| "expects AValueOrClose st ts = ((\<exists>r. ts = RBracket # r \<and> closes (tl st) r) \<or> value_then st ts)"
| "expects AKeyOrClose st ts =
     ((\<exists>r. ts = RBrace # r \<and> closes (tl st) r) \<or> (\<exists>r. ts = Str # Colon # r \<and> value_then st r))"
| "expects AKey st ts = (\<exists>r. ts = Str # Colon # r \<and> value_then st r)"
| "expects AColon st ts = (\<exists>r. ts = Colon # r \<and> value_then st r)"
| "expects ACommaOrClose st ts = (st \<noteq> [] \<and> closes st ts)"
| "expects AEnd st ts = (ts = [])"

record ParseError =
  filePath :: string
  line :: nat
  detail :: string

definition line_of :: "string \<Rightarrow> nat \<Rightarrow> nat" where
  "line_of data offset = Suc (length (filter (\<lambda>c. c = CHR 0x0A) (take offset data)))"

definition parseJSON :: "string \<Rightarrow> string \<Rightarrow> ParseError + unit" where
  "parseJSON data jsonPath =
     (if data = [] then Inl \<lparr>filePath = jsonPath, line = 1, detail = ''FILE HAS NO CONTENT''\<rparr>
      else case first_invalid AValue [] (lex Outside 0 data) (length data) of
             None \<Rightarrow> Inr ()
           | Some offset \<Rightarrow>
               Inl \<lparr>filePath = jsonPath, line = line_of data offset, detail = []\<rparr>)"

text \<open>\<open>readJSON(path)\<close> reads the file, whose content is a parameter, and parses it.\<close>

definition readJSON :: "(string \<Rightarrow> string) \<Rightarrow> string \<Rightarrow> ParseError + unit" where
  "readJSON readFile jsonPath = parseJSON (readFile jsonPath) jsonPath"

text \<open>The documents of the unit test of \<open>readJSON\<close>.\<close>

definition invalid_multiline :: string where
  "invalid_multiline =
     ''{'' @ [CHR 0x0A]
     @ ''                '' @ [CHR 0x22] @ ''key'' @ [CHR 0x22] @ '': 12345,'' @ [CHR 0x0A]
     @ ''                '' @ [CHR 0x22] @ ''value'' @ [CHR 0x22] @ '': true,'' @ [CHR 0x0A]
     @ ''            }''"

definition invalid_multiline2 :: string where
  "invalid_multiline2 = ''{'' @ [CHR 0x0A, CHR 0x22] @ ''a'' @ [CHR 0x22] @ '':}''"

definition invalid_single_line :: string where
  "invalid_single_line =
     ''{ '' @ [CHR 0x22] @ ''key'' @ [CHR 0x22] @ '': 12345, '' @ [CHR 0x22] @ ''value''
     @ [CHR 0x22] @ '': [1,2,3], }''"

definition invalid_single_line_spec :: string where
  "invalid_single_line_spec = ''{ '' @ [CHR 0x22] @ ''key'' @ [CHR 0x22] @ '': 1, }''"

text \<open>
  Two more texts of four lines with a comma before the closing brace: the brace is on the
  third line, followed by a line of blanks in the first and by the end of an array in the
  second.
\<close>

definition brace_on_third_line :: string where
  "brace_on_third_line =
     ''{'' @ [CHR 0x0A]
     @ ''    '' @ [CHR 0x22] @ ''key'' @ [CHR 0x22] @ '': 12345,'' @ [CHR 0x0A]
     @ ''}'' @ [CHR 0x0A]
     @ ''    ''"

definition brace_in_array :: string where
  "brace_in_array =
     ''['' @ [CHR 0x0A]
     @ ''{'' @ [CHR 0x22] @ ''key'' @ [CHR 0x22] @ '': 12345,'' @ [CHR 0x0A]
     @ ''},'' @ [CHR 0x0A]
     @ ''true]''"

text \<open>
  Single-line texts with a wrong escape in a string, a text that ends inside an array, and
  a well-formed document.
\<close>

definition bad_escape :: string where
  "bad_escape = ''{'' @ [CHR 0x22] @ ''a'' @ [CHR 0x22] @ '':'' @ [CHR 0x22, CHR 0x5C] @ ''q''
     @ [CHR 0x22] @ ''}''"

definition bad_unicode_escape :: string where
  "bad_unicode_escape = ''['' @ [CHR 0x22, CHR 0x5C] @ ''uZZZZ'' @ [CHR 0x22] @ '']''"

definition unfinished_array :: string where
  "unfinished_array = ''[1,'' @ [CHR 0x0A] @ '' 2''"

definition valid_document :: string where
  "valid_document =
     ''{'' @ [CHR 0x22] @ ''key'' @ [CHR 0x22] @ '':12345,'' @ [CHR 0x22] @ ''value''
     @ [CHR 0x22] @ '':true}''"

section \<open>The api version stored by the default options\<close>

text \<open>
  C10: whenever the constructor of DefaultStreamingOptions succeeds, the stored api version
  is 36.0 if the apiVersion argument starts with /system and the apiVersion argument itself
  otherwise; the channel argument is stored as it is and has no part in the choice. The
  constructor succeeds on every present organization and processor and non-empty
  api version and channel.
\<close>

theorem DefaultStreamingOptions_apiVersion:
  assumes "apiVersion_arg \<noteq> []" and "channel_arg \<noteq> []"
  shows "\<exists>opts. DefaultStreamingOptions (Some og) apiVersion_arg channel_arg (Some sp) = Inr opts
           \<and> apiVersion opts = (if prefix ''/system'' apiVersion_arg then ''36.0'' else apiVersion_arg)
           \<and> channel opts = channel_arg"
  using assms by (simp add: DefaultStreamingOptions_def)

theorem DefaultStreamingOptions_apiVersion_witness:
  "''/system/Logging'' \<noteq> [] \<and> ''/topic/Results'' \<noteq> [] \<and> ''42.0'' \<noteq> []
   \<and> (\<exists>opts. DefaultStreamingOptions (Some \<lparr>instanceUrl = None, accessToken = None\<rparr>)
          ''/system/Logging'' ''/topic/Results'' (Some (\<lambda>m::nat. Inr (None :: nat StatusResult option))) = Inr opts
        \<and> apiVersion opts = ''36.0'' \<and> channel opts = ''/topic/Results'')
   \<and> (\<exists>opts. DefaultStreamingOptions (Some \<lparr>instanceUrl = None, accessToken = None\<rparr>)
          ''42.0'' ''/system/Logging'' (Some (\<lambda>m::nat. Inr (None :: nat StatusResult option))) = Inr opts
        \<and> apiVersion opts = ''42.0'' \<and> channel opts = ''/system/Logging'')"
  using DefaultStreamingOptions_apiVersion
          [of "''/system/Logging''" "''/topic/Results''" "\<lparr>instanceUrl = None, accessToken = None\<rparr>"
              "\<lambda>m::nat. Inr (None :: nat StatusResult option)"]
        DefaultStreamingOptions_apiVersion
          [of "''42.0''" "''/system/Logging''" "\<lparr>instanceUrl = None, accessToken = None\<rparr>"
              "\<lambda>m::nat. Inr (None :: nat StatusResult option)"]
  by simp

section \<open>The access token check of init\<close>

lemma example_options_default:
  "DefaultStreamingOptions (Some example_org) ''42.0'' ''/topic/Results'' (Some example_processor)
     = Inr example_options"
  by (simp add: DefaultStreamingOptions_def example_options_def)

lemma init_token_check:
  assumes "refreshAuth (org opts) = Inr refreshed"
  shows "init refreshAuth opts =
     (case accessToken refreshed of
        Some tok \<Rightarrow>
          if 5 < length tok
          then Inr \<lparr>targetUrl = targetUrl (StreamingClient_new opts),
                    options = opts\<lparr>org := refreshed\<rparr>,
                    cometClient = setHeader ''Authorization'' (''OAuth '' @ tok)
                                    (cometClient (StreamingClient_new opts))\<rparr>
          else Inl \<lparr>message = ''Missing or invalid access token'',
                    name = ''MissingOrInvalidAcc essToken''\<rparr>
      | None \<Rightarrow> Inl \<lparr>message = ''Missing or invalid access token'',
                      name = ''MissingOrInvalidAcc essToken''\<rparr>)"
  using assms by (simp add: init_def Let_def SfdxError_new_def split: option.splits)

text \<open>
  C3: with an absent access token after the refresh (and likewise with the five-character
  token abcde), init fails, and the name of its error is the text
  "MissingOrInvalidAcc essToken", with a space inside: it is not MissingOrInvalidAccessToken.
\<close>

theorem init_error_name:
  "(case init (\<lambda>og. Inr (og\<lparr>accessToken := None\<rparr>)) example_options of
      Inl e \<Rightarrow> name e = ''MissingOrInvalidAcc essToken'' \<and> name e \<noteq> ''MissingOrInvalidAccessToken''
    | Inr sc \<Rightarrow> False)
   \<and> (case init (\<lambda>og. Inr (og\<lparr>accessToken := Some ''abcde''\<rparr>)) example_options of
      Inl e \<Rightarrow> name e = ''MissingOrInvalidAcc essToken'' \<and> name e \<noteq> ''MissingOrInvalidAccessToken''
    | Inr sc \<Rightarrow> False)"
  by (simp add: init_def Let_def SfdxError_new_def)


section \<open>Lifecycles once settled\<close>

lemma transport_calls_append:
  "transport_calls (xs @ ys) = transport_calls xs @ transport_calls ys"
  by (induction xs rule: transport_calls.induct) simp_all

lemma handshake_response_settled:
  assumes "\<not> armed (timer s)" and "promise s \<noteq> Pending"
  shows "promise (handshake_response s) = promise s"
    and "timer (handshake_response s) = timer s"
    and "comet (handshake_response s) = comet s"
    and "transport_calls (trace (handshake_response s)) = transport_calls (trace s)"
proof -
  show "promise (handshake_response s) = promise s"
    using assms(2) by (cases "promise s") (simp_all add: handshake_response_def)
  show "timer (handshake_response s) = timer s"
    using assms(1) by (cases "timer s") (simp_all add: handshake_response_def)
  show "comet (handshake_response s) = comet s"
    by (simp add: handshake_response_def)
  show "transport_calls (trace (handshake_response s)) = transport_calls (trace s)"
    by (simp add: handshake_response_def transport_calls_append)
qed

lemma handshake_loop_settled:
  "\<not> armed (timer s) \<Longrightarrow> promise s \<noteq> Pending \<Longrightarrow>
     promise (handshake_loop c ts s) = promise s
   \<and> timer (handshake_loop c ts s) = timer s
   \<and> comet (handshake_loop c ts s) = comet s
   \<and> transport_calls (trace (handshake_loop c ts s)) = transport_calls (trace s)"
proof (induction ts arbitrary: s)
  case Nil
  then show ?case by simp
next
  case (Cons t ts)
  have step: "handshake_loop c (t # ts) s = handshake_loop c ts (handshake_response s)"
    using Cons.prems(1) by (cases "timer s") simp_all
  have "\<not> armed (timer (handshake_response s))" "promise (handshake_response s) \<noteq> Pending"
    using Cons.prems by (simp_all add: handshake_response_settled)
  from Cons.IH[OF this] show ?case
    unfolding step using Cons.prems by (simp add: handshake_response_settled)
qed

lemma disconnect_fields:
  "timer (disconnect s) = timer s" "promise (disconnect s) = promise s"
  "transport_calls (trace (disconnect s)) = transport_calls (trace s) @
     (case dispatcher (comet s) of None \<Rightarrow> []
      | Some dp \<Rightarrow> if clientId dp = None \<or> clientId dp = Some [] then [DispatcherClose]
                   else [CometDisconnect])"
  by (simp_all add: disconnect_def transport_calls_append split: option.splits)

lemma handshake_timeout_fired:
  assumes "promise s = Pending"
  shows "timer (handshake_timeout c s) = Fired"
    and "\<exists>e. promise (handshake_timeout c s) = Rejected e \<and> name e = ''handshake''"
    and "transport_calls (trace (handshake_timeout c s)) = transport_calls (trace s) @
     (case dispatcher (comet s) of None \<Rightarrow> []
      | Some dp \<Rightarrow> if clientId dp = None \<or> clientId dp = Some [] then [DispatcherClose]
                   else [CometDisconnect])"
  using assms
  by (simp_all add: handshake_timeout_def doTimeout_def Let_def disconnect_fields
        transport_calls_append)

lemma handshake_start_fields:
  "timer (handshake_start c) = Armed (milliseconds (handshakeTimeout (options c)))"
  "promise (handshake_start c) = Pending"
  "comet (handshake_start c) = cometClient c"
  "transport_calls (trace (handshake_start c)) = []"
  by (simp_all add: handshake_start_def)

lemma handshake_late:
  assumes "\<forall>t\<in>set responses. milliseconds (handshakeTimeout (options c)) \<le> t"
  shows "(\<exists>e. promise (handshake c responses) = Rejected e \<and> name e = ''handshake'')
       \<and> timer (handshake c responses) = Fired
       \<and> transport_calls (trace (handshake c responses)) =
           (case dispatcher (cometClient c) of
              None \<Rightarrow> []
            | Some dp \<Rightarrow> if clientId dp = None \<or> clientId dp = Some [] then [DispatcherClose]
                         else [CometDisconnect])"
proof -
  let ?s0 = "handshake_start c"
  let ?s1 = "handshake_timeout c ?s0"
  have fired: "timer ?s1 = Fired"
    and rej: "\<exists>e. promise ?s1 = Rejected e \<and> name e = ''handshake''"
    and calls: "transport_calls (trace ?s1) =
           (case dispatcher (cometClient c) of
              None \<Rightarrow> []
            | Some dp \<Rightarrow> if clientId dp = None \<or> clientId dp = Some [] then [DispatcherClose]
                         else [CometDisconnect])"
    using handshake_timeout_fired[of ?s0 c] by (simp_all add: handshake_start_fields)
  show ?thesis
  proof (cases responses)
    case Nil
    then have "handshake c responses = ?s1"
      by (simp add: handshake_def handshake_start_fields)
    with fired rej calls show ?thesis by simp
  next
    case (Cons t ts)
    with assms have "milliseconds (handshakeTimeout (options c)) \<le> t" by simp
    with Cons have run: "handshake c responses = handshake_loop c ts (handshake_response ?s1)"
      by (simp add: handshake_def handshake_start_fields)
    have quiet: "\<not> armed (timer ?s1)" "promise ?s1 \<noteq> Pending"
      using fired rej by auto
    have quiet': "\<not> armed (timer (handshake_response ?s1))"
                 "promise (handshake_response ?s1) \<noteq> Pending"
      using quiet by (simp_all add: handshake_response_settled)
    show ?thesis
      unfolding run using handshake_loop_settled[OF quiet', of c ts] fired rej calls quiet
      by (simp add: handshake_response_settled)
  qed
qed

lemma handshake_in_time:
  assumes "t < milliseconds (handshakeTimeout (options c))"
  shows "promise (handshake c (t # ts)) = Resolved CONNECTED
       \<and> timer (handshake c (t # ts)) = Cleared
       \<and> transport_calls (trace (handshake c (t # ts))) = []"
proof -
  let ?s1 = "handshake_response (handshake_start c)"
  have run: "handshake c (t # ts) = handshake_loop c ts ?s1"
    using assms by (simp add: handshake_def handshake_start_fields)
  have f: "promise ?s1 = Resolved CONNECTED" "timer ?s1 = Cleared"
          "transport_calls (trace ?s1) = []"
    by (simp_all add: handshake_response_def handshake_start_def)
  have quiet: "\<not> armed (timer ?s1)" "promise ?s1 \<noteq> Pending"
    using f by simp_all
  show ?thesis
    unfolding run using handshake_loop_settled[OF quiet, of c ts] f by simp
qed

section \<open>The outcome of a handshake\<close>

text \<open>
  C4, as amended: when every handshake response comes at or after the handshakeTimeout
  deadline (or none comes), the timer fires, the handshake promise is rejected with an error
  named handshake, and the force-disconnect depends on the low-level dispatcher: without a
  dispatcher no disconnecting call is made at all; with a dispatcher that holds no client
  id the dispatcher is closed directly; with a client id a normal disconnect is issued.
  When the first response comes before the deadline, the timer is cleared, the promise
  resolves with CONNECTED and no disconnecting call is made.
\<close>

theorem handshake_outcome:
  "((\<forall>t\<in>set responses. milliseconds (handshakeTimeout (options c)) \<le> t) \<longrightarrow>
      (\<exists>e. promise (handshake c responses) = Rejected e \<and> name e = ''handshake'')
      \<and> timer (handshake c responses) = Fired
      \<and> transport_calls (trace (handshake c responses)) =
           (case dispatcher (cometClient c) of
              None \<Rightarrow> []
            | Some dp \<Rightarrow> if clientId dp = None \<or> clientId dp = Some [] then [DispatcherClose]
                         else [CometDisconnect]))
   \<and> (\<forall>t ts. responses = t # ts \<and> t < milliseconds (handshakeTimeout (options c)) \<longrightarrow>
        promise (handshake c responses) = Resolved CONNECTED
      \<and> timer (handshake c responses) = Cleared
      \<and> transport_calls (trace (handshake c responses)) = [])"
  using handshake_late[of responses c] handshake_in_time[of _ c] by blast

lemma example_handshake_ms: "milliseconds (handshakeTimeout (options example_client)) = 60000"
  by (simp add: example_client_def StreamingClient_new_def example_options_def Let_def)

lemma example_dispatcher:
  "dispatcher (cometClient example_client) = Some \<lparr>clientId = None, closed = False\<rparr>"
  by (simp add: example_client_def StreamingClient_new_def example_options_def Let_def
        Faye_Client_def on_def addExtension_def disable_def)

theorem handshake_outcome_witness:
  "milliseconds (handshakeTimeout (options example_client)) \<le> 60000
   \<and> milliseconds (handshakeTimeout (options example_client)) \<le> 61000
   \<and> (\<exists>e. promise (handshake example_client [60000, 61000]) = Rejected e \<and> name e = ''handshake'')
   \<and> timer (handshake example_client [60000, 61000]) = Fired
   \<and> transport_calls (trace (handshake example_client [60000, 61000])) = [DispatcherClose]
   \<and> (250::nat) < milliseconds (handshakeTimeout (options example_client))
   \<and> promise (handshake example_client [250]) = Resolved CONNECTED
   \<and> timer (handshake example_client [250]) = Cleared"
  using handshake_outcome[of "[60000, 61000]" example_client]
        handshake_outcome[of "[250]" example_client]
  by (simp add: example_handshake_ms example_dispatcher)

text \<open>
  The claim as stated fails on a comet client without the _dispatcher property: no client id
  was ever established, the timer fires, and neither the dispatcher is closed nor a
  disconnect issued.
\<close>

theorem handshake_without_dispatcher:
  "dispatcher (cometClient mock_client) = None
   \<and> timer (handshake mock_client []) = Fired
   \<and> DispatcherClose \<notin> set (trace (handshake mock_client []))
   \<and> CometDisconnect \<notin> set (trace (handshake mock_client []))"
  by (simp add: mock_client_def StreamingClient_new_def example_options_def Let_def
        on_def addExtension_def disable_def handshake_def handshake_start_def
        handshake_timeout_def doTimeout_def disconnect_def)

section \<open>Messages on the subscribed channel\<close>

text \<open>
  A settled lifecycle keeps its promise and its timer whatever comes later; a pending
  subscribe promise has its timer running; and a lifecycle only adds calls to its trace.
\<close>

lemma on_event_settled:
  assumes "\<not> armed (timer s)" and "promise s \<noteq> Pending"
  shows "timer (on_event c ev s) = timer s" "promise (on_event c ev s) = promise s"
proof -
  have t: "clearTimeout (timer s) = timer s" using assms(1) by (cases "timer s") simp_all
  have r: "\<And>v. resolve v (promise s) = promise s" "\<And>e. reject e (promise s) = promise s"
    using assms(2) by (cases "promise s"; simp)+
  show "timer (on_event c ev s) = timer s"
    by (cases ev) (simp_all add: on_event_def on_message_def t
          split: sum.splits option.splits promise.splits)
  show "promise (on_event c ev s) = promise s"
    by (cases ev) (simp_all add: on_event_def on_message_def r
          split: sum.splits option.splits promise.splits)
qed

lemma subscribe_loop_settled:
  "\<not> armed (timer s) \<Longrightarrow> promise s \<noteq> Pending \<Longrightarrow>
     promise (subscribe_loop c evs s) = promise s \<and> timer (subscribe_loop c evs s) = timer s"
proof (induction evs arbitrary: s)
  case Nil
  then show ?case by simp
next
  case (Cons tev evs)
  obtain t ev where tev: "tev = (t, ev)" by (cases tev)
  have step: "subscribe_loop c (tev # evs) s = subscribe_loop c evs (on_event c ev s)"
    using Cons.prems(1) unfolding tev by (cases "timer s") simp_all
  have "\<not> armed (timer (on_event c ev s))" "promise (on_event c ev s) \<noteq> Pending"
    using Cons.prems by (simp_all add: on_event_settled)
  from Cons.IH[OF this] show ?case
    unfolding step using Cons.prems by (simp add: on_event_settled)
qed

lemma subscribe_loop_step:
  "subscribe_loop c ((t, ev) # rest) s = subscribe_loop c rest (on_event c ev (expire c t s))"
  by (cases "timer s") (simp_all add: expire_def)

lemma subscribe_loop_events:
  "subscribe_loop c (evs @ rest) s = subscribe_loop c rest (subscribe_events c evs s)"
proof (induction evs arbitrary: s)
  case Nil
  show ?case by simp
next
  case (Cons tev evs)
  obtain t ev where tev: "tev = (t, ev)" by (cases tev)
  have "subscribe_loop c ((tev # evs) @ rest) s
          = subscribe_loop c (evs @ rest) (on_event c ev (expire c t s))"
    unfolding tev append_Cons by (rule subscribe_loop_step)
  also have "\<dots> = subscribe_loop c rest (subscribe_events c evs (on_event c ev (expire c t s)))"
    by (rule Cons.IH)
  finally show ?case unfolding tev by simp
qed

text \<open>A pending subscribe promise has its timer running.\<close>

lemma subscribe_timeout_settles:
  "promise (subscribe_timeout c s) \<noteq> Pending"
  by (cases "promise s") (simp_all add: subscribe_timeout_def doTimeout_def Let_def disconnect_def
        split: option.splits)

lemma expire_pending:
  assumes "promise s = Pending \<longrightarrow> armed (timer s)"
  shows "promise (expire c t s) = Pending \<longrightarrow> armed (timer (expire c t s))"
proof (cases "timer s")
  case (Armed d)
  show ?thesis
  proof (cases "d \<le> t")
    case True
    with Armed have "expire c t s = subscribe_timeout c s" by (simp add: expire_def)
    then show ?thesis by (simp add: subscribe_timeout_settles)
  next
    case False
    with Armed have "expire c t s = s" by (simp add: expire_def)
    with assms show ?thesis by simp
  qed
next
  case NotStarted
  with assms show ?thesis by (simp add: expire_def)
next
  case Cleared
  with assms show ?thesis by (simp add: expire_def)
next
  case Fired
  with assms show ?thesis by (simp add: expire_def)
qed

lemma reject_settles: "reject e p \<noteq> Pending"
  by (cases p) simp_all

lemma resolve_settles: "resolve v p \<noteq> Pending"
  by (cases p) simp_all

lemma on_event_pending:
  assumes "promise s = Pending \<longrightarrow> armed (timer s)"
  shows "promise (on_event c ev s) = Pending \<longrightarrow> armed (timer (on_event c ev s))"
proof (cases ev)
  case SubscriptionAck
  with assms show ?thesis by (simp add: on_event_def)
next
  case (SubscriptionErr e)
  with assms show ?thesis
    by (cases "subscription s") (simp_all add: on_event_def reject_settles)
next
  case (Message m)
  show ?thesis
  proof (cases "streamProcessor (options c) m")
    case (Inl e)
    with Message show ?thesis by (simp add: on_event_def on_message_def reject_settles)
  next
    case (Inr res)
    show ?thesis
    proof (cases res)
      case None
      with Inr Message assms show ?thesis by (simp add: on_event_def on_message_def)
    next
      case (Some r)
      with Inr Message assms show ?thesis
        by (simp add: on_event_def on_message_def resolve_settles)
    qed
  qed
qed

lemma subscribe_events_pending:
  assumes "promise s = Pending \<longrightarrow> armed (timer s)"
  shows "promise (subscribe_events c evs s) = Pending \<longrightarrow> armed (timer (subscribe_events c evs s))"
  using assms
proof (induction evs arbitrary: s)
  case Nil
  then show ?case by simp
next
  case (Cons tev evs)
  obtain t ev where tev: "tev = (t, ev)" by (cases tev)
  have "promise (on_event c ev (expire c t s)) = Pending
          \<longrightarrow> armed (timer (on_event c ev (expire c t s)))"
    by (rule on_event_pending, rule expire_pending, rule Cons.prems)
  from Cons.IH[OF this] show ?case unfolding tev by simp
qed

lemma delivery_state_pending:
  assumes "s = expire c t (subscribe_events c evs (subscribe_start c InitResolves))"
    and "promise s = Pending"
  shows "armed (timer s)"
proof -
  have "promise (subscribe_start c InitResolves) = Pending
          \<longrightarrow> armed (timer (subscribe_start c InitResolves))"
    by (simp add: subscribe_start_def Let_def)
  then have "promise s = Pending \<longrightarrow> armed (timer s)"
    unfolding assms(1) by (intro expire_pending subscribe_events_pending)
  with assms(2) show ?thesis by simp
qed

text \<open>A lifecycle only adds calls to its trace.\<close>

lemma subscribe_timeout_trace: "prefix (trace s) (trace (subscribe_timeout c s))"
  by (simp add: subscribe_timeout_def doTimeout_def Let_def disconnect_def split: option.splits)

lemma on_event_trace: "prefix (trace s) (trace (on_event c ev s))"
  by (cases ev)
     (simp_all add: on_event_def on_message_def split: promise.splits sum.splits option.splits)

lemma subscribe_loop_trace: "prefix (trace s) (trace (subscribe_loop c evs s))"
proof (induction evs arbitrary: s)
  case Nil
  show ?case by (simp add: subscribe_timeout_trace)
next
  case (Cons tev evs)
  obtain t ev where tev: "tev = (t, ev)" by (cases tev)
  have "prefix (trace s) (trace (expire c t s))"
    by (cases "timer s") (simp_all add: expire_def subscribe_timeout_trace)
  also have "prefix \<dots> (trace (on_event c ev (expire c t s)))"
    by (rule on_event_trace)
  also have "prefix \<dots> (trace (subscribe_loop c evs (on_event c ev (expire c t s))))"
    by (rule Cons.IH)
  finally show ?case unfolding tev subscribe_loop_step .
qed

lemma subscribe_delivers:
  "subscribe c InitResolves (evs @ (t, ev) # rest)
     = subscribe_loop c rest
         (on_event c ev (expire c t (subscribe_events c evs (subscribe_start c InitResolves))))"
  by (simp add: subscribe_def subscribe_loop_events subscribe_loop_step del: subscribe_loop.simps)

text \<open>
  C5, as amended: a message delivered to the subscribed channel reaches the processor in
  the state in which the events before it have left the subscription. When the processor
  returns a result that is not completed, the message changes nothing: a pending promise
  stays pending and its timer keeps running. When the result is completed, the timer is
  cleared, the comet client's disconnect is called and the outer resolve is called with
  exactly the result's payload, in this order; and if the subscribe promise is still
  pending when the message comes (no earlier message, registration error or timeout has
  settled it), subscribe resolves with that payload, with the timer cleared, whatever
  comes later.
\<close>

theorem subscribe_message_returned:
  assumes "streamProcessor (options c) m = Inr (Some r)"
    and "s = expire c t (subscribe_events c evs (subscribe_start c InitResolves))"
  shows "subscribe c InitResolves (evs @ (t, Message m) # rest)
           = subscribe_loop c rest (on_event c (Message m) s)
       \<and> (\<not> completed r \<longrightarrow> on_event c (Message m) s = s)
       \<and> (completed r \<longrightarrow>
            trace (on_event c (Message m) s)
              = trace s @ [ClearTimeout, CometDisconnect, SettleResolve (payload r)]
          \<and> \<not> armed (timer (on_event c (Message m) s)))
       \<and> (promise s = Pending \<longrightarrow> armed (timer s))
       \<and> (completed r \<and> promise s = Pending \<longrightarrow>
            promise (subscribe c InitResolves (evs @ (t, Message m) # rest)) = Resolved (payload r)
          \<and> timer (subscribe c InitResolves (evs @ (t, Message m) # rest)) = Cleared
          \<and> prefix (trace s @ [ClearTimeout, CometDisconnect, SettleResolve (payload r)])
               (trace (subscribe c InitResolves (evs @ (t, Message m) # rest))))"
proof -
  let ?s1 = "on_event c (Message m) s"
  let ?run = "subscribe c InitResolves (evs @ (t, Message m) # rest)"
  have run: "?run = subscribe_loop c rest ?s1"
    unfolding assms(2) by (rule subscribe_delivers)
  have ev: "?s1 = on_message c m s" by (simp add: on_event_def)
  have ignored: "\<not> completed r \<longrightarrow> ?s1 = s"
    using assms(1) by (simp add: ev on_message_def)
  have calls: "completed r \<longrightarrow>
      trace ?s1 = trace s @ [ClearTimeout, CometDisconnect, SettleResolve (payload r)]
      \<and> \<not> armed (timer ?s1)"
    using assms(1) by (cases "timer s") (simp_all add: ev on_message_def)
  have running: "promise s = Pending \<longrightarrow> armed (timer s)"
    using delivery_state_pending[OF assms(2)] by simp
  have settled: "completed r \<and> promise s = Pending \<longrightarrow>
      promise ?run = Resolved (payload r) \<and> timer ?run = Cleared
      \<and> prefix (trace s @ [ClearTimeout, CometDisconnect, SettleResolve (payload r)]) (trace ?run)"
  proof
    assume a: "completed r \<and> promise s = Pending"
    with running obtain d where d: "timer s = Armed d" by (cases "timer s") simp_all
    have p1: "promise ?s1 = Resolved (payload r)" and t1: "timer ?s1 = Cleared"
      and tr1: "trace ?s1 = trace s @ [ClearTimeout, CometDisconnect, SettleResolve (payload r)]"
      using a d assms(1) by (simp_all add: ev on_message_def)
    have "promise (subscribe_loop c rest ?s1) = promise ?s1
        \<and> timer (subscribe_loop c rest ?s1) = timer ?s1"
      by (rule subscribe_loop_settled) (simp_all add: p1 t1)
    moreover have "prefix (trace ?s1) (trace (subscribe_loop c rest ?s1))"
      by (rule subscribe_loop_trace)
    ultimately show "promise ?run = Resolved (payload r) \<and> timer ?run = Cleared
      \<and> prefix (trace s @ [ClearTimeout, CometDisconnect, SettleResolve (payload r)]) (trace ?run)"
      by (simp only: run p1 t1 tr1 simp_thms)
  qed
  from run ignored calls running settled show ?thesis by (intro conjI)
qed

text \<open>
  C6, as amended: when the processor throws on a delivered message, the timer is cleared
  and the outer reject is called with the thrown error, and nothing else: no disconnecting
  call is made and the comet client is left as it was; and if the subscribe promise is
  still pending when the message comes, subscribe rejects with the thrown error, with the
  timer cleared, whatever comes later.
\<close>

theorem subscribe_message_thrown:
  assumes "streamProcessor (options c) m = Inl e"
    and "s = expire c t (subscribe_events c evs (subscribe_start c InitResolves))"
  shows "subscribe c InitResolves (evs @ (t, Message m) # rest)
           = subscribe_loop c rest (on_event c (Message m) s)
       \<and> trace (on_event c (Message m) s) = trace s @ [ClearTimeout, SettleReject e]
       \<and> comet (on_event c (Message m) s) = comet s
       \<and> \<not> armed (timer (on_event c (Message m) s))
       \<and> (promise s = Pending \<longrightarrow>
            promise (subscribe c InitResolves (evs @ (t, Message m) # rest)) = Rejected e
          \<and> timer (subscribe c InitResolves (evs @ (t, Message m) # rest)) = Cleared
          \<and> prefix (trace s @ [ClearTimeout, SettleReject e])
               (trace (subscribe c InitResolves (evs @ (t, Message m) # rest))))"
proof -
  let ?s1 = "on_event c (Message m) s"
  let ?run = "subscribe c InitResolves (evs @ (t, Message m) # rest)"
  have run: "?run = subscribe_loop c rest ?s1"
    unfolding assms(2) by (rule subscribe_delivers)
  have ev: "?s1 = on_message c m s" by (simp add: on_event_def)
  have calls: "trace ?s1 = trace s @ [ClearTimeout, SettleReject e]"
    "comet ?s1 = comet s"
    using assms(1) by (simp_all add: ev on_message_def)
  have stopped: "\<not> armed (timer ?s1)"
    using assms(1) by (cases "timer s") (simp_all add: ev on_message_def)
  have settled: "promise s = Pending \<longrightarrow>
      promise ?run = Rejected e \<and> timer ?run = Cleared
      \<and> prefix (trace s @ [ClearTimeout, SettleReject e]) (trace ?run)"
  proof
    assume a: "promise s = Pending"
    with delivery_state_pending[OF assms(2)] obtain d where d: "timer s = Armed d"
      by (cases "timer s") simp_all
    have p1: "promise ?s1 = Rejected e" and t1: "timer ?s1 = Cleared"
      using a d assms(1) by (simp_all add: ev on_message_def)
    have "promise (subscribe_loop c rest ?s1) = promise ?s1
        \<and> timer (subscribe_loop c rest ?s1) = timer ?s1"
      by (rule subscribe_loop_settled) (simp_all add: p1 t1)
    moreover have "prefix (trace ?s1) (trace (subscribe_loop c rest ?s1))"
      by (rule subscribe_loop_trace)
    ultimately show "promise ?run = Rejected e \<and> timer ?run = Cleared
      \<and> prefix (trace s @ [ClearTimeout, SettleReject e]) (trace ?run)"
      by (simp only: run p1 t1 calls(1) simp_thms)
  qed
  from run calls stopped settled show ?thesis by (intro conjI)
qed

lemmas example_run = subscribe_def subscribe_start_def example_client_def StreamingClient_new_def
  example_options_def Let_def subscribe_timeout_def doTimeout_def disconnect_def
  on_event_def on_message_def example_processor_def SfdxError_create_def SfdxError_new_def
  Faye_Client_def on_def addExtension_def disable_def expire_def

theorem subscribe_message_returned_witness:
  "streamProcessor (options example_client) ''X''
     = Inr (Some \<lparr>completed = True, payload = Some ''X''\<rparr>)
   \<and> completed \<lparr>completed = True, payload = Some ''X''\<rparr>
   \<and> promise (expire example_client 30
        (subscribe_events example_client [(10, SubscriptionAck), (20, Message ''wait'')]
           (subscribe_start example_client InitResolves))) = Pending
   \<and> promise (subscribe example_client InitResolves
        ([(10, SubscriptionAck), (20, Message ''wait'')] @ (30, Message ''X'')
           # [(40, Message ''boom'')])) = Resolved (Some ''X'')
   \<and> timer (subscribe example_client InitResolves
        ([(10, SubscriptionAck), (20, Message ''wait'')] @ (30, Message ''X'')
           # [(40, Message ''boom'')])) = Cleared"
  using subscribe_message_returned
          [where c = example_client and m = "''X''"
             and r = "\<lparr>completed = True, payload = Some ''X''\<rparr>" and t = 30
             and evs = "[(10, SubscriptionAck), (20, Message ''wait'')]"
             and rest = "[(40, Message ''boom'')]", OF _ refl]
  by (simp add: example_run)

text \<open>
  The claim as stated fails on a completing message that comes after a message on which
  the processor threw: the subscribe promise stays rejected with the thrown error.
\<close>

theorem completed_message_after_throw:
  "streamProcessor (options example_client) ''X''
     = Inr (Some \<lparr>completed = True, payload = Some ''X''\<rparr>)
   \<and> promise (subscribe example_client InitResolves [(10, Message ''boom''), (20, Message ''X'')])
       = Rejected \<lparr>message = ''Not found.'', name = ''NotFound''\<rparr>
   \<and> promise (subscribe example_client InitResolves [(10, Message ''boom''), (20, Message ''X'')])
       \<noteq> Resolved (Some ''X'')"
  by (simp add: example_run)

theorem subscribe_message_thrown_witness:
  "streamProcessor (options example_client) ''boom''
     = Inl \<lparr>message = ''Not found.'', name = ''NotFound''\<rparr>
   \<and> promise (expire example_client 30
        (subscribe_events example_client [(10, SubscriptionAck), (20, Message ''wait'')]
           (subscribe_start example_client InitResolves))) = Pending
   \<and> promise (subscribe example_client InitResolves
        ([(10, SubscriptionAck), (20, Message ''wait'')] @ (30, Message ''boom'')
           # [(40, Message ''X'')])) = Rejected \<lparr>message = ''Not found.'', name = ''NotFound''\<rparr>
   \<and> timer (subscribe example_client InitResolves
        ([(10, SubscriptionAck), (20, Message ''wait'')] @ (30, Message ''boom'')
           # [(40, Message ''X'')])) = Cleared"
  using subscribe_message_thrown
          [where c = example_client and m = "''boom''"
             and e = "\<lparr>message = ''Not found.'', name = ''NotFound''\<rparr>" and t = 30
             and evs = "[(10, SubscriptionAck), (20, Message ''wait'')]"
             and rest = "[(40, Message ''X'')]", OF _ refl]
  by (simp add: example_run)

text \<open>
  The claim as stated fails on the second of two messages on which the processor throws:
  the subscribe promise stays rejected with the error of the first.
\<close>

theorem thrown_message_after_throw:
  "streamProcessor (options picky_client) ''bang''
     = Inl \<lparr>message = ''Bad state.'', name = ''BadState''\<rparr>
   \<and> promise (subscribe picky_client InitResolves [(10, Message ''boom''), (20, Message ''bang'')])
       = Rejected \<lparr>message = ''Not found.'', name = ''NotFound''\<rparr>
   \<and> promise (subscribe picky_client InitResolves [(10, Message ''boom''), (20, Message ''bang'')])
       \<noteq> Rejected \<lparr>message = ''Bad state.'', name = ''BadState''\<rparr>"
  by (simp add: example_run picky_client_def picky_processor_def)

section \<open>The timer and the call order of subscribe\<close>

text \<open>
  C1: with the default options (subscribeTimeout of 3 minutes, handshakeTimeout of 1 minute)
  the timer of subscribe is armed with 60000 milliseconds, the handshakeTimeout, not with
  the 180000 of the subscribeTimeout; with a handshakeTimeout of 2 seconds it is armed
  with 2000; and a completing message 100 seconds after the start finds the subscribe
  promise rejected by the subscribe timeout.
\<close>

theorem subscribe_timer_uses_handshakeTimeout:
  "milliseconds (subscribeTimeout (options example_client)) = 180000
   \<and> milliseconds (handshakeTimeout (options example_client)) = 60000
   \<and> timer (subscribe_start example_client InitResolves) = Armed 60000
   \<and> timer (subscribe_start
        (example_client\<lparr>options := example_options\<lparr>handshakeTimeout := Time 2 SECONDS\<rparr>\<rparr>)
        InitResolves) = Armed 2000
   \<and> promise (subscribe example_client InitResolves [(100000, Message ''X'')])
       = Rejected \<lparr>message = ''genericTimeoutMessage'', name = ''subscribe''\<rparr>"
  by (simp add: subscribe_def subscribe_start_def example_client_def StreamingClient_new_def
        example_options_def Let_def subscribe_timeout_def doTimeout_def disconnect_def
        on_event_def on_message_def example_processor_def SfdxError_create_def
        Faye_Client_def on_def addExtension_def disable_def)

text \<open>
  C2: subscribe calls streamInit before anything else: the timer and the registration of the
  channel come after it, before any acknowledgment has been delivered; the acknowledgment
  of the registration is followed by no call at all (only the timeout comes after it, when
  no message does); and when the promise of streamInit rejects, streamInit has been called
  and the channel is never registered.
\<close>

theorem subscribe_invokes_streamInit_first:
  "trace (subscribe_start example_client InitResolves) =
     [InvokeStreamInit, SetTimeout 60000, CometSubscribe ''/topic/Results'']
   \<and> trace (subscribe example_client InitResolves [(5, SubscriptionAck)]) =
     [InvokeStreamInit, SetTimeout 60000, CometSubscribe ''/topic/Results'',
      DispatcherClose, ClearTimeout,
      SettleReject \<lparr>message = ''genericTimeoutMessage'', name = ''subscribe''\<rparr>]
   \<and> trace (subscribe example_client (InitRejects (SfdxError_new ''request failed'' ''Error''))
        [(5, SubscriptionAck)]) = [InvokeStreamInit]"
  by (simp add: subscribe_def subscribe_start_def example_client_def StreamingClient_new_def
        example_options_def Let_def subscribe_timeout_def doTimeout_def disconnect_def
        on_event_def SfdxError_create_def Faye_Client_def on_def addExtension_def disable_def)

section \<open>The scratch org check\<close>

text \<open>
  C7: a query with zero rows fails with an error named NoResults; a query error named
  INVALID_TYPE fails with an error named NotADevHub; a query with a row merges the fields
  of the row into the credential record and returns the fields of that record.
\<close>

theorem checkScratchOrg_outcomes:
  "(\<exists>e. checkScratchOrg (QueryRecords []) credential = Inl e \<and> name e = ''NoResults'')
   \<and> (name err = ''INVALID_TYPE'' \<longrightarrow>
        (\<exists>e. checkScratchOrg (QueryFails err) credential = Inl e \<and> name e = ''NotADevHub''))
   \<and> (\<exists>returned stored.
        checkScratchOrg (QueryRecords (row # rows)) credential = Inr (returned, stored)
        \<and> stored = credential ++ row \<and> returned = stored)"
  by (simp add: checkScratchOrg_def SfdxError_new_def Let_def)

theorem checkScratchOrg_outcomes_witness:
  "name \<lparr>message = [], name = ''INVALID_TYPE''\<rparr> = ''INVALID_TYPE''
   \<and> (\<exists>e. checkScratchOrg (QueryFails \<lparr>message = [], name = ''INVALID_TYPE''\<rparr>)
             [''username'' \<mapsto> ''admin@gb.org''] = Inl e \<and> name e = ''NotADevHub'')
   \<and> (\<exists>e. checkScratchOrg (QueryRecords []) [''username'' \<mapsto> ''admin@gb.org''] = Inl e
           \<and> name e = ''NoResults'')
   \<and> checkScratchOrg (QueryRecords [Map.empty]) [''username'' \<mapsto> ''admin@gb.org'']
       = Inr ([''username'' \<mapsto> ''admin@gb.org''], [''username'' \<mapsto> ''admin@gb.org''])"
  using checkScratchOrg_outcomes[of "[''username'' \<mapsto> ''admin@gb.org'']"
          "\<lparr>message = [], name = ''INVALID_TYPE''\<rparr>" Map.empty "[]"]
  by simp

section \<open>The greatest api version\<close>

lemma numerically_less_values:
  "version_value a = Some x \<Longrightarrow> version_value b = Some y \<Longrightarrow> numerically_less a b = (x < y)"
  by (simp add: numerically_less_def)

lemma fold_greatest:
  fixes vs :: "ApiVersion list"
  assumes "\<forall>e\<in>set (v # vs). version_value (version e) \<noteq> None"
  shows "\<exists>r\<in>set (v # vs). \<exists>x.
           fold (\<lambda>x best. if numerically_less (version best) (version x) then x else best) vs v = r
         \<and> version_value (version r) = Some x
         \<and> (\<forall>w\<in>set (v # vs). \<exists>y. version_value (version w) = Some y \<and> y \<le> x)"
  using assms
proof (induction vs arbitrary: v)
  case Nil
  then show ?case by auto
next
  case (Cons a vs)
  let ?step = "\<lambda>x best. if numerically_less (version best) (version x) then x else best"
  obtain xv xa where v: "version_value (version v) = Some xv"
    and a: "version_value (version a) = Some xa"
    using Cons.prems by auto
  let ?b = "?step a v"
  have b_in: "?b = a \<or> ?b = v" by simp
  have "\<forall>e\<in>set (?b # vs). version_value (version e) \<noteq> None"
    using Cons.prems by auto
  from Cons.IH[OF this] obtain r x where
    r: "r \<in> set (?b # vs)" "fold ?step vs ?b = r" "version_value (version r) = Some x"
    and ge: "\<forall>w\<in>set (?b # vs). \<exists>y. version_value (version w) = Some y \<and> y \<le> x"
    by blast
  from ge obtain yb where yb: "version_value (version ?b) = Some yb" "yb \<le> x"
    by auto
  have "xv \<le> yb \<and> xa \<le> yb"
    using yb(1) v a by (auto simp: numerically_less_values split: if_splits)
  with yb(2) have "xv \<le> x" "xa \<le> x" by auto
  with v a ge have all: "\<forall>w\<in>set (v # a # vs). \<exists>y. version_value (version w) = Some y \<and> y \<le> x"
    by auto
  have rin: "r \<in> set (v # a # vs)" using r(1) by (auto split: if_splits)
  have "fold ?step (a # vs) v = r" using r(2) by simp
  with rin r(3) all show ?case by blast
qed

text \<open>
  C9: on a non-empty list of entries whose versions are decimal numbers,
  retrieveMaxApiVersion returns the version string of an entry of the list, and no entry
  of the list has a greater numeric value.
\<close>

theorem retrieveMaxApiVersion_greatest:
  assumes "versions \<noteq> []" and "\<forall>e\<in>set versions. version_value (version e) \<noteq> None"
  shows "\<exists>e\<in>set versions. \<exists>x.
           retrieveMaxApiVersion versions = Some (version e)
         \<and> version_value (version e) = Some x
         \<and> (\<forall>w\<in>set versions. \<exists>y. version_value (version w) = Some y \<and> y \<le> x)"
proof -
  from assms(1) obtain v vs where vs: "versions = v # vs" by (cases versions) auto
  let ?step = "\<lambda>x best. if numerically_less (version best) (version x) then x else best"
  from assms(2) vs have "\<forall>e\<in>set (v # vs). version_value (version e) \<noteq> None" by simp
  from fold_greatest[OF this] obtain r x where
    r: "r \<in> set (v # vs)" "fold ?step vs v = r" "version_value (version r) = Some x"
    and ge: "\<forall>w\<in>set (v # vs). \<exists>y. version_value (version w) = Some y \<and> y \<le> x"
    by blast
  have "retrieveMaxApiVersion versions = Some (version r)"
    using r(2) by (simp add: retrieveMaxApiVersion_def vs)
  with r(1,3) ge show ?thesis unfolding vs by blast
qed

lemma example_version_values:
  "version_value ''89.0'' = Some 89" "version_value ''90.0'' = Some 90"
  "version_value ''88.0'' = Some 88" "version_value ''9.0'' = Some 9"
  "version_value ''10.0'' = Some 10"
  by (simp_all add: version_value_def digit_of_def)

theorem retrieveMaxApiVersion_greatest_witness:
  "[\<lparr>version = ''89.0''\<rparr>, \<lparr>version = ''90.0''\<rparr>, \<lparr>version = ''88.0''\<rparr>] \<noteq> []
   \<and> version_value ''89.0'' \<noteq> None \<and> version_value ''90.0'' \<noteq> None \<and> version_value ''88.0'' \<noteq> None
   \<and> retrieveMaxApiVersion [\<lparr>version = ''89.0''\<rparr>, \<lparr>version = ''90.0''\<rparr>, \<lparr>version = ''88.0''\<rparr>]
       = Some ''90.0''
   \<and> retrieveMaxApiVersion [\<lparr>version = ''9.0''\<rparr>, \<lparr>version = ''10.0''\<rparr>] = Some ''10.0''"
  using retrieveMaxApiVersion_greatest
          [of "[\<lparr>version = ''89.0''\<rparr>, \<lparr>version = ''90.0''\<rparr>, \<lparr>version = ''88.0''\<rparr>]"]
  by (simp add: retrieveMaxApiVersion_def numerically_less_def example_version_values)

section \<open>The automaton and the grammar\<close>

text \<open>
  The automaton lets exactly the tokens pass that the grammar allows in its state: one
  token at a time (\<open>expects_Cons\<close>), hence for every list of tokens
  (\<open>first_invalid_None\<close>).
\<close>

lemma json_value_nonempty: "json_value v \<Longrightarrow> v \<noteq> []"
  by (cases rule: json_value.cases) auto

lemma object_rest_nonempty: "object_rest ro \<Longrightarrow> ro \<noteq> []"
  by (cases rule: object_rest.cases) auto

lemma array_rest_nonempty: "array_rest ar \<Longrightarrow> ar \<noteq> []"
  by (cases rule: array_rest.cases) auto

lemma value_then_Nil [simp]: "\<not> value_then st []"
  by (auto simp: value_then_def dest: json_value_nonempty)

lemma closes_Nil [simp]: "closes st [] = (st = [])"
proof (cases st)
  case Nil
  then show ?thesis by simp
next
  case (Cons k st')
  then show ?thesis
    by (cases k) (auto dest: object_rest_nonempty array_rest_nonempty)
qed

lemma closes_object_Cons:
  "closes (InObject # st) (tk # ts) =
     (tk = RBrace \<and> closes st ts \<or> tk = Comma \<and> expects AKey (InObject # st) ts)"
proof
  assume "closes (InObject # st) (tk # ts)"
  then obtain ro r where split: "tk # ts = ro @ r" and ro: "object_rest ro" and r: "closes st r"
    by auto
  from ro show "tk = RBrace \<and> closes st ts \<or> tk = Comma \<and> expects AKey (InObject # st) ts"
  proof cases
    case object_end
    with split r show ?thesis by simp
  next
    case (object_more v ro')
    with split have tk: "tk = Comma" and ts: "ts = Str # Colon # v @ (ro' @ r)" by simp_all
    from object_more(3) r have "closes (InObject # st) (ro' @ r)" by auto
    with object_more(2) have "value_then (InObject # st) (v @ (ro' @ r))"
      unfolding value_then_def by blast
    with tk ts show ?thesis by simp
  qed
next
  assume "tk = RBrace \<and> closes st ts \<or> tk = Comma \<and> expects AKey (InObject # st) ts"
  then show "closes (InObject # st) (tk # ts)"
  proof
    assume a: "tk = RBrace \<and> closes st ts"
    have "tk # ts = [RBrace] @ ts" using a by simp
    with a object_end show ?thesis unfolding closes.simps by blast
  next
    assume a: "tk = Comma \<and> expects AKey (InObject # st) ts"
    then obtain v r where ts: "ts = Str # Colon # v @ r" and v: "json_value v"
      and r: "closes (InObject # st) r"
      by (auto simp: value_then_def)
    from r obtain ro r' where r': "r = ro @ r'" and ro: "object_rest ro" and c: "closes st r'"
      by auto
    have "object_rest (Comma # Str # Colon # v @ ro)" using v ro by (rule object_more)
    moreover have "tk # ts = (Comma # Str # Colon # v @ ro) @ r'" using a ts r' by simp
    ultimately show ?thesis using c unfolding closes.simps by blast
  qed
qed

lemma closes_array_Cons:
  "closes (InArray # st) (tk # ts) =
     (tk = RBracket \<and> closes st ts \<or> tk = Comma \<and> value_then (InArray # st) ts)"
proof
  assume "closes (InArray # st) (tk # ts)"
  then obtain ar r where split: "tk # ts = ar @ r" and ar: "array_rest ar" and r: "closes st r"
    by auto
  from ar show "tk = RBracket \<and> closes st ts \<or> tk = Comma \<and> value_then (InArray # st) ts"
  proof cases
    case array_end
    with split r show ?thesis by simp
  next
    case (array_more v ar')
    with split have tk: "tk = Comma" and ts: "ts = v @ (ar' @ r)" by simp_all
    from array_more(3) r have "closes (InArray # st) (ar' @ r)" by auto
    with array_more(2) have "value_then (InArray # st) (v @ (ar' @ r))"
      unfolding value_then_def by blast
    with tk ts show ?thesis by simp
  qed
next
  assume "tk = RBracket \<and> closes st ts \<or> tk = Comma \<and> value_then (InArray # st) ts"
  then show "closes (InArray # st) (tk # ts)"
  proof
    assume a: "tk = RBracket \<and> closes st ts"
    have "tk # ts = [RBracket] @ ts" using a by simp
    with a array_end show ?thesis unfolding closes.simps by blast
  next
    assume a: "tk = Comma \<and> value_then (InArray # st) ts"
    then obtain v r where ts: "ts = v @ r" and v: "json_value v"
      and r: "closes (InArray # st) r"
      by (auto simp: value_then_def)
    from r obtain ar r' where r': "r = ar @ r'" and ar: "array_rest ar" and c: "closes st r'"
      by auto
    have "array_rest (Comma # v @ ar)" using v ar by (rule array_more)
    moreover have "tk # ts = (Comma # v @ ar) @ r'" using a ts r' by simp
    ultimately show ?thesis using c unfolding closes.simps by blast
  qed
qed

lemma value_then_Cons:
  "value_then st (tk # ts) =
     ((tk = Str \<or> tk = Num \<or> tk = Lit) \<and> closes st ts
      \<or> tk = LBrace \<and> expects AKeyOrClose (InObject # st) ts
      \<or> tk = LBracket \<and> expects AValueOrClose (InArray # st) ts)"
  (is "?L = ?R")
proof
  assume ?L
  then obtain v r where split: "tk # ts = v @ r" and v: "json_value v" and r: "closes st r"
    unfolding value_then_def by blast
  from v show ?R
  proof cases
    case string_value
    with split r show ?thesis by simp
  next
    case number_value
    with split r show ?thesis by simp
  next
    case literal_value
    with split r show ?thesis by simp
  next
    case empty_object
    with split r show ?thesis by simp
  next
    case (object_value v' ro)
    with split have tk: "tk = LBrace" and ts: "ts = Str # Colon # v' @ (ro @ r)" by simp_all
    from object_value(3) r have "closes (InObject # st) (ro @ r)" by auto
    with object_value(2) have "value_then (InObject # st) (v' @ (ro @ r))"
      unfolding value_then_def by blast
    with tk ts show ?thesis by simp
  next
    case empty_array
    with split r show ?thesis by simp
  next
    case (array_value v' ar)
    with split have tk: "tk = LBracket" and ts: "ts = v' @ (ar @ r)" by simp_all
    from array_value(3) r have "closes (InArray # st) (ar @ r)" by auto
    with array_value(2) have "value_then (InArray # st) (v' @ (ar @ r))"
      unfolding value_then_def by blast
    with tk ts show ?thesis by simp
  qed
next
  assume ?R
  then consider (scalar) "tk = Str \<or> tk = Num \<or> tk = Lit" "closes st ts"
    | (obj_empty) r where "tk = LBrace" "ts = RBrace # r" "closes st r"
    | (obj) r where "tk = LBrace" "ts = Str # Colon # r" "value_then (InObject # st) r"
    | (arr_empty) r where "tk = LBracket" "ts = RBracket # r" "closes st r"
    | (arr) "tk = LBracket" "value_then (InArray # st) ts"
    by auto
  then show ?L
  proof cases
    case scalar
    then have "json_value [tk]"
      using string_value number_value literal_value by auto
    moreover have "tk # ts = [tk] @ ts" by simp
    ultimately show ?thesis using scalar(2) unfolding value_then_def by blast
  next
    case (obj_empty r)
    have "tk # ts = [LBrace, RBrace] @ r" using obj_empty by simp
    with empty_object obj_empty(3) show ?thesis unfolding value_then_def by blast
  next
    case (obj r)
    from obj(3) obtain v r1 where r: "r = v @ r1" and v: "json_value v"
      and c: "closes (InObject # st) r1" unfolding value_then_def by blast
    from c obtain ro r2 where r1: "r1 = ro @ r2" and ro: "object_rest ro" and c2: "closes st r2"
      by auto
    have "json_value (LBrace # Str # Colon # v @ ro)" using v ro by (rule object_value)
    moreover have "tk # ts = (LBrace # Str # Colon # v @ ro) @ r2" using obj r r1 by simp
    ultimately show ?thesis using c2 unfolding value_then_def by blast
  next
    case (arr_empty r)
    have "tk # ts = [LBracket, RBracket] @ r" using arr_empty by simp
    with empty_array arr_empty(3) show ?thesis unfolding value_then_def by blast
  next
    case arr
    from arr(2) obtain v r1 where r: "ts = v @ r1" and v: "json_value v"
      and c: "closes (InArray # st) r1" unfolding value_then_def by blast
    from c obtain ar r2 where r1: "r1 = ar @ r2" and ar: "array_rest ar" and c2: "closes st r2"
      by auto
    have "json_value (LBracket # v @ ar)" using v ar by (rule array_value)
    moreover have "tk # ts = (LBracket # v @ ar) @ r2" using arr r r1 by simp
    ultimately show ?thesis using c2 unfolding value_then_def by blast
  qed
qed

lemma expects_after_value:
  "(case after_value st of (e, st') \<Rightarrow> expects e st' ts) = closes st ts"
  by (cases st) (simp_all add: after_value_def)

lemma expects_Cons:
  "expects e st (tk # ts) =
     (case grammar_step e st tk of None \<Rightarrow> False | Some (e', st') \<Rightarrow> expects e' st' ts)"
proof (cases e)
  case AValue
  then show ?thesis
    using expects_after_value[where st = st and ts = ts]
    by (cases tk) (simp_all add: grammar_step_def start_value_def value_then_Cons)
next
  case AValueOrClose
  then show ?thesis
    using expects_after_value[where st = st and ts = ts] expects_after_value[where st = "tl st" and ts = ts]
    by (cases tk) (simp_all add: grammar_step_def start_value_def value_then_Cons)
next
  case AKeyOrClose
  then show ?thesis
    using expects_after_value[where st = "tl st" and ts = ts]
    by (cases tk) (simp_all add: grammar_step_def)
next
  case AKey
  then show ?thesis by (cases tk) (simp_all add: grammar_step_def)
next
  case AColon
  then show ?thesis by (cases tk) (simp_all add: grammar_step_def)
next
  case ACommaOrClose
  show ?thesis
  proof (cases st)
    case Nil
    with ACommaOrClose show ?thesis by (simp add: grammar_step_def)
  next
    case (Cons k outer)
    show ?thesis
    proof (cases k)
      case InObject
      with ACommaOrClose Cons show ?thesis
        using expects_after_value[where st = outer and ts = ts]
        by (cases tk) (simp_all add: grammar_step_def closes_object_Cons del: closes.simps)
    next
      case InArray
      with ACommaOrClose Cons show ?thesis
        using expects_after_value[where st = outer and ts = ts]
        by (cases tk) (simp_all add: grammar_step_def closes_array_Cons del: closes.simps)
    qed
  qed
next
  case AEnd
  then show ?thesis by (simp add: grammar_step_def)
qed

lemma expects_Nil: "expects e st [] = (e = AEnd)"
  by (cases e) simp_all

lemma first_invalid_None:
  "first_invalid e st pts n = None \<longleftrightarrow> expects e st (map snd pts)"
proof (induction pts arbitrary: e st)
  case Nil
  show ?case by (simp add: expects_Nil)
next
  case (Cons pt pts)
  obtain i tk where pt: "pt = (i, tk)" by (cases pt)
  show ?case
  proof (cases "grammar_step e st tk")
    case None
    then show ?thesis by (simp add: pt expects_Cons)
  next
    case (Some cfg)
    obtain e' st' where cfg: "cfg = (e', st')" by (cases cfg)
    with Some Cons.IH[of e' st'] show ?thesis by (simp add: pt expects_Cons)
  qed
qed

lemma expects_start: "expects AValue [] ts = json_value ts"
  by (auto simp: value_then_def)

lemma first_invalid_split:
  "first_invalid e st (pre @ rest) n = None \<Longrightarrow>
     \<exists>e' st'. \<forall>rest' n'. first_invalid e st (pre @ rest') n' = first_invalid e' st' rest' n'"
proof (induction pre arbitrary: e st)
  case Nil
  show ?case by auto
next
  case (Cons pt pre)
  obtain i tk where pt: "pt = (i, tk)" by (cases pt)
  from Cons.prems obtain e1 st1 where step: "grammar_step e st tk = Some (e1, st1)"
    and ok: "first_invalid e1 st1 (pre @ rest) n = None"
    by (auto simp: pt split: option.splits)
  from Cons.IH[OF ok] obtain e' st' where
    "\<forall>rest' n'. first_invalid e1 st1 (pre @ rest') n' = first_invalid e' st' rest' n'"
    by blast
  with step have "\<forall>rest' n'. first_invalid e st ((pt # pre) @ rest') n' = first_invalid e' st' rest' n'"
    by (simp add: pt)
  then show ?case by blast
qed

lemma comma_step:
  "grammar_step e st Comma = Some (e', st') \<Longrightarrow> e' = AKey \<or> e' = AValue"
  by (cases e)
     (auto simp: grammar_step_def start_value_def split: list.splits container.splits if_splits)

lemma brace_after_comma:
  "e = AKey \<or> e = AValue \<Longrightarrow> grammar_step e st RBrace = None"
  by (auto simp: grammar_step_def start_value_def)

lemma first_invalid_trailing_comma:
  assumes "json_value (map snd pre @ Comma # suf)"
  shows "first_invalid AValue [] (pre @ (i, Comma) # (k, RBrace) # post) n = Some k"
proof -
  let ?pts = "pre @ (i, Comma) # map (Pair 0) suf"
  have "map snd ?pts = map snd pre @ Comma # suf" by (simp add: comp_def)
  with assms have "first_invalid AValue [] ?pts n = None"
    by (simp only: first_invalid_None expects_start)
  from first_invalid_split[OF this] obtain e1 st1 where
    run: "\<And>rest' n'. first_invalid AValue [] (pre @ rest') n' = first_invalid e1 st1 rest' n'"
    by blast
  from \<open>first_invalid AValue [] ?pts n = None\<close>
  have "first_invalid e1 st1 ((i, Comma) # map (Pair 0) suf) n = None"
    by (simp only: run)
  then obtain e2 st2 where step: "grammar_step e1 st1 Comma = Some (e2, st2)"
    by (auto split: option.splits)
  from comma_step[OF step] have "grammar_step e2 st2 RBrace = None"
    by (rule brace_after_comma)
  with step have "first_invalid e1 st1 ((i, Comma) # (k, RBrace) # post) n = Some k"
    by simp
  then show ?thesis by (simp only: run)
qed

lemma closes_ex: "\<exists>ts. closes st ts"
proof (induction st)
  case Nil
  show ?case by simp
next
  case (Cons k st)
  then obtain ts where ts: "closes st ts" by blast
  show ?case
  proof (cases k)
    case InObject
    have "closes (InObject # st) (RBrace # ts)" using ts by (simp add: closes_object_Cons del: closes.simps)
    with InObject show ?thesis by blast
  next
    case InArray
    have "closes (InArray # st) (RBracket # ts)" using ts by (simp add: closes_array_Cons del: closes.simps)
    with InArray show ?thesis by blast
  qed
qed

lemma value_then_ex: "\<exists>ts. value_then st ts"
proof -
  obtain ts where "closes st ts" using closes_ex by blast
  then have "value_then st (Str # ts)" by (simp add: value_then_Cons)
  then show ?thesis by blast
qed

lemma after_value_live: "after_value x = (e', st') \<Longrightarrow> \<exists>ts. expects e' st' ts"
proof (cases "x = []")
  case True
  assume "after_value x = (e', st')"
  with True have "e' = AEnd" by (simp add: after_value_def)
  then show ?thesis by simp
next
  case False
  assume "after_value x = (e', st')"
  with False have "e' = ACommaOrClose" "st' = x" by (simp_all add: after_value_def)
  with False closes_ex[of x] show ?thesis by auto
qed

lemma step_live:
  assumes "grammar_step e st tk = Some (e', st')"
  shows "\<exists>ts. expects e' st' ts"
proof -
  have shape: "(\<exists>x. after_value x = (e', st')) \<or> e' = AKeyOrClose \<or> e' = AValueOrClose
      \<or> e' = AColon \<or> e' = AValue \<or> e' = AKey"
    using assms
    by (cases e; cases tk)
       (auto simp: grammar_step_def start_value_def split: list.splits container.splits if_splits)
  obtain vs where vs: "value_then st' vs" using value_then_ex by blast
  from shape show ?thesis
  proof (elim disjE exE)
    fix x assume "after_value x = (e', st')"
    then show ?thesis by (rule after_value_live)
  next
    assume "e' = AKeyOrClose"
    with vs have "expects e' st' (Str # Colon # vs)" by simp
    then show ?thesis by blast
  next
    assume "e' = AValueOrClose"
    with vs have "expects e' st' vs" by simp
    then show ?thesis by blast
  next
    assume "e' = AColon"
    with vs have "expects e' st' (Colon # vs)" by simp
    then show ?thesis by blast
  next
    assume "e' = AValue"
    with vs have "expects e' st' vs" by simp
    then show ?thesis by blast
  next
    assume "e' = AKey"
    with vs have "expects e' st' (Str # Colon # vs)" by simp
    then show ?thesis by blast
  qed
qed

lemma map_snd_Pair: "map snd (map (Pair (0::nat)) ts) = ts"
  by (simp add: comp_def)

lemma json_value_first_invalid:
  "json_value ts = (first_invalid AValue [] (map (Pair 0) ts) n = None)"
  by (simp only: first_invalid_None expects_start map_snd_Pair)

lemma viable_run:
  assumes "viable (map snd pre)"
  shows "\<exists>e1 st1. \<forall>rest n. first_invalid AValue [] (pre @ rest) n = first_invalid e1 st1 rest n"
proof -
  from assms obtain suf where "json_value (map snd pre @ suf)" unfolding viable_def by blast
  then have "json_value (map snd (pre @ map (Pair 0) suf))" by (simp add: comp_def)
  then have "first_invalid AValue [] (pre @ map (Pair 0) suf) 0 = None"
    by (simp only: first_invalid_None expects_start)
  from first_invalid_split[OF this] show ?thesis .
qed

text \<open>
  The first structurally invalid token: the automaton stops at the first token with which
  the text is no longer a beginning of a well-formed document, and at the end of a text
  that is such a beginning without being a document.
\<close>

lemma first_invalid_token:
  assumes "viable (map snd pre)" and "\<not> viable (map snd pre @ [tk])"
  shows "first_invalid AValue [] (pre @ (k, tk) # post) n = Some k"
proof -
  from viable_run[OF assms(1)] obtain e1 st1 where
    run: "\<And>rest n. first_invalid AValue [] (pre @ rest) n = first_invalid e1 st1 rest n"
    by blast
  have "grammar_step e1 st1 tk = None"
  proof (rule ccontr)
    assume "grammar_step e1 st1 tk \<noteq> None"
    then obtain e2 st2 where step: "grammar_step e1 st1 tk = Some (e2, st2)" by auto
    from step_live[OF step] obtain ts where "expects e2 st2 ts" by blast
    with step have "expects e1 st1 (tk # ts)" by (simp add: expects_Cons)
    then have "first_invalid e1 st1 ((0, tk) # map (Pair 0) ts) 0 = None"
      by (simp only: first_invalid_None list.map snd_conv map_snd_Pair)
    then have "first_invalid AValue [] (pre @ (0, tk) # map (Pair 0) ts) 0 = None"
      by (simp only: run)
    then have "json_value (map snd (pre @ (0, tk) # map (Pair 0) ts))"
      by (simp only: first_invalid_None expects_start)
    then have "json_value ((map snd pre @ [tk]) @ ts)" by (simp add: comp_def)
    then have "viable (map snd pre @ [tk])" unfolding viable_def by blast
    with assms(2) show False by simp
  qed
  then have "first_invalid e1 st1 ((k, tk) # post) n = Some k" by simp
  then show ?thesis by (simp only: run)
qed

lemma first_invalid_end:
  assumes "viable (map snd pts)" and "\<not> json_value (map snd pts)"
  shows "first_invalid AValue [] pts n = Some n"
proof -
  from viable_run[OF assms(1)] obtain e1 st1 where
    run: "\<And>rest n. first_invalid AValue [] (pts @ rest) n = first_invalid e1 st1 rest n"
    by blast
  from run[of "[]" n] have eq: "first_invalid AValue [] pts n = (if e1 = AEnd then None else Some n)"
    by simp
  from assms(2) have "first_invalid AValue [] pts n \<noteq> None"
    by (simp only: first_invalid_None expects_start not_False_eq_True)
  with eq show ?thesis by (simp split: if_splits)
qed

lemma first_invalid_comma_brace:
  assumes "viable (map snd pre @ [Comma])"
  shows "first_invalid AValue [] (pre @ (i, Comma) # (k, RBrace) # post) n = Some k"
proof -
  from assms obtain suf where "json_value ((map snd pre @ [Comma]) @ suf)"
    unfolding viable_def by blast
  then have "json_value (map snd pre @ Comma # suf)" by simp
  then show ?thesis by (rule first_invalid_trailing_comma)
qed

text \<open>A beginning at which the automaton stops has no well-formed continuation.\<close>

lemma stuck_extends:
  "first_invalid e st (map (Pair 0) ts) (Suc 0) = Some 0 \<Longrightarrow>
     first_invalid e st (map (Pair 0) (ts @ suf)) m \<noteq> None"
proof (induction ts arbitrary: e st)
  case Nil
  then show ?case by (simp split: if_splits)
next
  case (Cons tk ts)
  show ?case
  proof (cases "grammar_step e st tk")
    case None
    then show ?thesis by simp
  next
    case (Some cfg)
    obtain e' st' where cfg: "cfg = (e', st')" by (cases cfg)
    with Some Cons.prems have "first_invalid e' st' (map (Pair 0) ts) (Suc 0) = Some 0" by simp
    from Cons.IH[OF this] Some cfg show ?thesis by simp
  qed
qed

lemma stuck_not_viable:
  assumes "first_invalid AValue [] (map (Pair 0) ts) (Suc 0) = Some 0"
  shows "\<not> viable ts"
proof
  assume "viable ts"
  then obtain suf where "json_value (ts @ suf)" unfolding viable_def by blast
  then have "first_invalid AValue [] (map (Pair 0) (ts @ suf)) 0 = None"
    by (simp only: json_value_first_invalid[symmetric])
  with stuck_extends[OF assms] show False by blast
qed

lemma viableI: "json_value (ts @ suf) \<Longrightarrow> viable ts"
  unfolding viable_def by blast

section \<open>Parse errors of the JSON reader\<close>

lemmas json_eval = parseJSON_def readJSON_def line_of_def is_ws_def punctuation_def
  is_word_char_def classify_def num_step_def digit_of_def grammar_step_def start_value_def
  after_value_def is_simple_escape_def is_hex_def

lemma well_formed_first_invalid:
  "well_formed data = (first_invalid AValue [] (lex Outside 0 data) n = None)"
  by (simp only: well_formed_def first_invalid_None expects_start)

lemma line_of_bounds:
  "1 \<le> line_of data offset"
  "line_of data offset \<le> Suc (length (filter (\<lambda>c. c = CHR 0x0A) data))"
proof -
  show "1 \<le> line_of data offset" by (simp add: line_of_def)
  have "length (filter (\<lambda>c. c = CHR 0x0A) (take offset data))
          \<le> length (filter (\<lambda>c. c = CHR 0x0A) (take offset data @ drop offset data))"
    unfolding filter_append by simp
  then show "line_of data offset \<le> Suc (length (filter (\<lambda>c. c = CHR 0x0A) data))"
    by (simp add: line_of_def)
qed

lemma line_of_single_line:
  assumes "CHR 0x0A \<notin> set data"
  shows "line_of data offset = 1"
proof -
  have "set (take offset data) \<subseteq> set data" by (rule set_take_subset)
  with assms have "\<forall>c\<in>set (take offset data). c \<noteq> CHR 0x0A" by auto
  then have "filter (\<lambda>c. c = CHR 0x0A) (take offset data) = []"
    by (simp add: filter_empty_conv)
  then show ?thesis by (simp add: line_of_def)
qed

lemma parseJSON_well_formed:
  "(parseJSON data p = Inr ()) = (data \<noteq> [] \<and> well_formed data)"
  by (simp add: parseJSON_def well_formed_first_invalid[of data "length data"]
        split: option.splits)

lemma parseJSON_malformed:
  assumes "\<not> well_formed data"
  shows "\<exists>e. parseJSON data p = Inl e \<and> filePath e = p \<and> 1 \<le> line e
           \<and> line e \<le> Suc (length (filter (\<lambda>c. c = CHR 0x0A) data))"
proof (cases "data = []")
  case True
  then show ?thesis by (simp add: parseJSON_def)
next
  case False
  from assms obtain offset where
    "first_invalid AValue [] (lex Outside 0 data) (length data) = Some offset"
    by (auto simp: well_formed_first_invalid[of data "length data"])
  with False line_of_bounds[of data offset] show ?thesis
    by (simp add: parseJSON_def)
qed

lemma parseJSON_stops:
  assumes "data \<noteq> []"
    and "first_invalid AValue [] (lex Outside 0 data) (length data) = Some offset"
  shows "parseJSON data p = Inl \<lparr>filePath = p, line = line_of data offset, detail = []\<rparr>"
  using assms by (simp add: parseJSON_def)

lemma tokens_nonempty: "lex Outside 0 data = pre @ pt # post \<Longrightarrow> data \<noteq> []"
  by auto

lemma viable_Nil: "viable []"
  unfolding viable_def using string_value by auto

lemma first_not_viable:
  "\<not> viable (map snd pts) \<Longrightarrow>
     \<exists>pre k tk post. pts = pre @ (k, tk) # post \<and> viable (map snd pre)
        \<and> \<not> viable (map snd pre @ [tk])"
proof (induction pts rule: rev_induct)
  case Nil
  then show ?case by (simp add: viable_Nil)
next
  case (snoc pt pts)
  obtain k tk where pt: "pt = (k, tk)" by (cases pt)
  show ?case
  proof (cases "viable (map snd pts)")
    case True
    have "pts @ [pt] = pts @ (k, tk) # []" by (simp add: pt)
    moreover have "\<not> viable (map snd pts @ [tk])" using snoc.prems by (simp add: pt)
    ultimately show ?thesis using True by blast
  next
    case False
    from snoc.IH[OF this] obtain pre k' tk' post where
      "pts = pre @ (k', tk') # post" "viable (map snd pre)" "\<not> viable (map snd pre @ [tk'])"
      by blast
    then have "pts @ [pt] = pre @ (k', tk') # (post @ [pt])" by simp
    with \<open>viable (map snd pre)\<close> \<open>\<not> viable (map snd pre @ [tk'])\<close> show ?thesis by blast
  qed
qed

lemma parseJSON_first_invalid_token:
  assumes "data \<noteq> []" and "\<not> well_formed data"
  shows "(\<exists>pre k tk post. lex Outside 0 data = pre @ (k, tk) # post \<and> viable (map snd pre)
            \<and> \<not> viable (map snd pre @ [tk])
            \<and> parseJSON data p =
                 Inl \<lparr>filePath = p,
                      line = Suc (length (filter (\<lambda>c. c = CHR 0x0A) (take k data))),
                      detail = []\<rparr>)
       \<or> (viable (map snd (lex Outside 0 data))
            \<and> parseJSON data p =
                 Inl \<lparr>filePath = p, line = Suc (length (filter (\<lambda>c. c = CHR 0x0A) data)),
                      detail = []\<rparr>)"
proof (cases "viable (map snd (lex Outside 0 data))")
  case True
  from assms(2) have "\<not> json_value (map snd (lex Outside 0 data))" by (simp add: well_formed_def)
  with True have "first_invalid AValue [] (lex Outside 0 data) (length data) = Some (length data)"
    by (rule first_invalid_end)
  from parseJSON_stops[OF assms(1) this, of p] True show ?thesis
    by (simp add: line_of_def)
next
  case False
  from first_not_viable[OF this] obtain pre k tk post where
    split: "lex Outside 0 data = pre @ (k, tk) # post" and v: "viable (map snd pre)"
    and nv: "\<not> viable (map snd pre @ [tk])" by blast
  from v nv have "first_invalid AValue [] (lex Outside 0 data) (length data) = Some k"
    unfolding split by (rule first_invalid_token)
  from parseJSON_stops[OF assms(1) this, of p] split v nv show ?thesis
    by (auto simp: line_of_def)
qed

text \<open>
  C8, as amended: empty content fails at line 1 with the message that the file has no
  content. Content is read without error exactly when it is not empty and well-formed; any
  other content fails with a parse error that names the file, at a line of the text, which
  is line 1 for every malformed text without a line break. The line is that of the first
  structurally invalid token: the first token with which the text stops being a beginning
  of a well-formed document, or the end of a text that is such a beginning without being a
  document. So a text with a comma before a closing brace fails at the
  line on which that brace stands, that is line 4 for the four-line document of the unit
  test, whose brace is on the last line; the single-line documents with such a comma fail
  at line 1, and the two-line content whose second line is "a":} fails at line 2.
\<close>

theorem readJSON_parse_errors:
  "readJSON (\<lambda>f. []) p = Inl \<lparr>filePath = p, line = 1, detail = ''FILE HAS NO CONTENT''\<rparr>
   \<and> (readJSON (\<lambda>f. content) p = Inr ()) = (content \<noteq> [] \<and> well_formed content)
   \<and> (\<not> well_formed content \<longrightarrow>
        (\<exists>e. readJSON (\<lambda>f. content) p = Inl e \<and> filePath e = p \<and> 1 \<le> line e
           \<and> line e \<le> Suc (length (filter (\<lambda>c. c = CHR 0x0A) content))))
   \<and> (\<not> well_formed content \<and> CHR 0x0A \<notin> set content \<longrightarrow>
        (\<exists>e. readJSON (\<lambda>f. content) p = Inl e \<and> filePath e = p \<and> line e = 1))
   \<and> (content \<noteq> [] \<and> \<not> well_formed content \<longrightarrow>
        (\<exists>pre' k' tk' post'.
            lex Outside 0 content = pre' @ (k', tk') # post' \<and> viable (map snd pre')
          \<and> \<not> viable (map snd pre' @ [tk'])
          \<and> readJSON (\<lambda>f. content) p =
               Inl \<lparr>filePath = p,
                    line = Suc (length (filter (\<lambda>c. c = CHR 0x0A) (take k' content))),
                    detail = []\<rparr>)
        \<or> (viable (map snd (lex Outside 0 content))
          \<and> readJSON (\<lambda>f. content) p =
               Inl \<lparr>filePath = p, line = Suc (length (filter (\<lambda>c. c = CHR 0x0A) content)),
                    detail = []\<rparr>))
   \<and> (lex Outside 0 content = pre @ (k, tk) # post \<and> viable (map snd pre)
        \<and> \<not> viable (map snd pre @ [tk]) \<longrightarrow>
        readJSON (\<lambda>f. content) p =
          Inl \<lparr>filePath = p,
               line = Suc (length (filter (\<lambda>c. c = CHR 0x0A) (take k content))),
               detail = []\<rparr>)
   \<and> (lex Outside 0 content = before @ (i, Comma) # (j, RBrace) # after
        \<and> viable (map snd before @ [Comma]) \<longrightarrow>
        readJSON (\<lambda>f. content) p =
          Inl \<lparr>filePath = p,
               line = Suc (length (filter (\<lambda>c. c = CHR 0x0A) (take j content))),
               detail = []\<rparr>)
   \<and> readJSON (\<lambda>f. invalid_multiline) p = Inl \<lparr>filePath = p, line = 4, detail = []\<rparr>
   \<and> readJSON (\<lambda>f. invalid_single_line) p = Inl \<lparr>filePath = p, line = 1, detail = []\<rparr>
   \<and> readJSON (\<lambda>f. invalid_single_line_spec) p = Inl \<lparr>filePath = p, line = 1, detail = []\<rparr>
   \<and> readJSON (\<lambda>f. invalid_multiline2) p = Inl \<lparr>filePath = p, line = 2, detail = []\<rparr>"
proof -
  have empty: "readJSON (\<lambda>f. []) p
                 = Inl \<lparr>filePath = p, line = 1, detail = ''FILE HAS NO CONTENT''\<rparr>"
    by (simp add: readJSON_def parseJSON_def)
  have accepted: "(readJSON (\<lambda>f. content) p = Inr ()) = (content \<noteq> [] \<and> well_formed content)"
    by (simp add: readJSON_def parseJSON_well_formed)
  have malformed: "\<not> well_formed content \<longrightarrow>
        (\<exists>e. readJSON (\<lambda>f. content) p = Inl e \<and> filePath e = p \<and> 1 \<le> line e
           \<and> line e \<le> Suc (length (filter (\<lambda>c. c = CHR 0x0A) content)))"
    using parseJSON_malformed[of content p] by (simp add: readJSON_def)
  have single: "\<not> well_formed content \<and> CHR 0x0A \<notin> set content \<longrightarrow>
        (\<exists>e. readJSON (\<lambda>f. content) p = Inl e \<and> filePath e = p \<and> line e = 1)"
  proof
    assume a: "\<not> well_formed content \<and> CHR 0x0A \<notin> set content"
    then have "filter (\<lambda>c. c = CHR 0x0A) content = []" by (auto simp: filter_empty_conv)
    with a parseJSON_malformed[of content p]
    show "\<exists>e. readJSON (\<lambda>f. content) p = Inl e \<and> filePath e = p \<and> line e = 1"
      by (auto simp: readJSON_def)
  qed
  have complete: "content \<noteq> [] \<and> \<not> well_formed content \<longrightarrow>
        (\<exists>pre' k' tk' post'.
            lex Outside 0 content = pre' @ (k', tk') # post' \<and> viable (map snd pre')
          \<and> \<not> viable (map snd pre' @ [tk'])
          \<and> readJSON (\<lambda>f. content) p =
               Inl \<lparr>filePath = p,
                    line = Suc (length (filter (\<lambda>c. c = CHR 0x0A) (take k' content))),
                    detail = []\<rparr>)
        \<or> (viable (map snd (lex Outside 0 content))
          \<and> readJSON (\<lambda>f. content) p =
               Inl \<lparr>filePath = p, line = Suc (length (filter (\<lambda>c. c = CHR 0x0A) content)),
                    detail = []\<rparr>)"
    using parseJSON_first_invalid_token[of content p] by (simp add: readJSON_def)
  have token: "lex Outside 0 content = pre @ (k, tk) # post \<and> viable (map snd pre)
        \<and> \<not> viable (map snd pre @ [tk]) \<longrightarrow>
        readJSON (\<lambda>f. content) p =
          Inl \<lparr>filePath = p,
               line = Suc (length (filter (\<lambda>c. c = CHR 0x0A) (take k content))),
               detail = []\<rparr>"
  proof
    assume a: "lex Outside 0 content = pre @ (k, tk) # post \<and> viable (map snd pre)
        \<and> \<not> viable (map snd pre @ [tk])"
    then have ne: "content \<noteq> []" by (blast dest: tokens_nonempty)
    from a have "first_invalid AValue [] (lex Outside 0 content) (length content) = Some k"
      by (simp add: first_invalid_token)
    from parseJSON_stops[OF ne this, of p]
    show "readJSON (\<lambda>f. content) p =
          Inl \<lparr>filePath = p,
               line = Suc (length (filter (\<lambda>c. c = CHR 0x0A) (take k content))),
               detail = []\<rparr>"
      by (simp add: readJSON_def line_of_def)
  qed
  have comma: "lex Outside 0 content = before @ (i, Comma) # (j, RBrace) # after
        \<and> viable (map snd before @ [Comma]) \<longrightarrow>
        readJSON (\<lambda>f. content) p =
          Inl \<lparr>filePath = p,
               line = Suc (length (filter (\<lambda>c. c = CHR 0x0A) (take j content))),
               detail = []\<rparr>"
  proof
    assume a: "lex Outside 0 content = before @ (i, Comma) # (j, RBrace) # after
        \<and> viable (map snd before @ [Comma])"
    then have ne: "content \<noteq> []" by (blast dest: tokens_nonempty)
    from a have "first_invalid AValue [] (lex Outside 0 content) (length content) = Some j"
      by (simp add: first_invalid_comma_brace)
    from parseJSON_stops[OF ne this, of p]
    show "readJSON (\<lambda>f. content) p =
          Inl \<lparr>filePath = p,
               line = Suc (length (filter (\<lambda>c. c = CHR 0x0A) (take j content))),
               detail = []\<rparr>"
      by (simp add: readJSON_def line_of_def)
  qed
  have d1: "readJSON (\<lambda>f. invalid_multiline) p = Inl \<lparr>filePath = p, line = 4, detail = []\<rparr>"
    by (simp add: json_eval invalid_multiline_def)
  have d2: "readJSON (\<lambda>f. invalid_single_line) p = Inl \<lparr>filePath = p, line = 1, detail = []\<rparr>"
    by (simp add: json_eval invalid_single_line_def)
  have d3: "readJSON (\<lambda>f. invalid_single_line_spec) p = Inl \<lparr>filePath = p, line = 1, detail = []\<rparr>"
    by (simp add: json_eval invalid_single_line_spec_def)
  have d4: "readJSON (\<lambda>f. invalid_multiline2) p = Inl \<lparr>filePath = p, line = 2, detail = []\<rparr>"
    by (simp add: json_eval invalid_multiline2_def)
  from empty accepted malformed single complete token comma d1 d2 d3 d4 show ?thesis
    by (intro conjI)
qed

lemmas grammar_eval = grammar_step_def start_value_def after_value_def

lemma unit_test_tokens:
  "lex Outside 0 invalid_multiline2 = [(0, LBrace), (2, Str), (5, Colon)] @ (6, RBrace) # []"
  "lex Outside 0 invalid_multiline =
     [(0, LBrace), (18, Str), (23, Colon), (25, Num), (30, Comma), (48, Str), (55, Colon),
      (57, Lit)] @ (61, Comma) # (75, RBrace) # []"
  by (simp_all add: json_eval invalid_multiline2_def invalid_multiline_def)

lemma unit_test_viable:
  "viable (map snd [(0::nat, LBrace), (2, Str), (5, Colon)])"
  "\<not> viable (map snd [(0::nat, LBrace), (2, Str), (5, Colon)] @ [RBrace])"
  "viable (map snd [(0::nat, LBrace), (18, Str), (23, Colon), (25, Num), (30, Comma), (48, Str),
                    (55, Colon), (57, Lit)] @ [Comma])"
proof -
  show "viable (map snd [(0::nat, LBrace), (2, Str), (5, Colon)])"
    by (rule viableI[where suf = "[Lit, RBrace]"])
       (simp add: json_value_first_invalid[where n = 0] grammar_eval)
  show "\<not> viable (map snd [(0::nat, LBrace), (2, Str), (5, Colon)] @ [RBrace])"
    by (rule stuck_not_viable) (simp add: grammar_eval)
  show "viable (map snd [(0::nat, LBrace), (18, Str), (23, Colon), (25, Num), (30, Comma),
                         (48, Str), (55, Colon), (57, Lit)] @ [Comma])"
    by (rule viableI[where suf = "[Str, Colon, Lit, RBrace]"])
       (simp add: json_value_first_invalid[where n = 0] grammar_eval)
qed

lemma unit_test_well_formed:
  "\<not> well_formed invalid_single_line" "CHR 0x0A \<notin> set invalid_single_line"
  "\<not> well_formed bad_escape" "CHR 0x0A \<notin> set bad_escape"
  "\<not> well_formed bad_unicode_escape" "well_formed valid_document"
  "\<not> well_formed unfinished_array" "unfinished_array \<noteq> []"
  by (simp_all add: well_formed_first_invalid[where n = 0] json_eval invalid_single_line_def
        bad_escape_def bad_unicode_escape_def valid_document_def unfinished_array_def)

theorem readJSON_parse_errors_witness:
  "\<not> well_formed invalid_single_line \<and> CHR 0x0A \<notin> set invalid_single_line
   \<and> readJSON (\<lambda>f. invalid_single_line) ''invalidJSON_no_newline''
       = Inl \<lparr>filePath = ''invalidJSON_no_newline'', line = 1, detail = []\<rparr>
   \<and> \<not> well_formed bad_escape \<and> CHR 0x0A \<notin> set bad_escape
   \<and> readJSON (\<lambda>f. bad_escape) ''escape''
       = Inl \<lparr>filePath = ''escape'', line = 1, detail = []\<rparr>
   \<and> lex Outside 0 invalid_multiline2 = [(0, LBrace), (2, Str), (5, Colon)] @ (6, RBrace) # []
   \<and> viable (map snd [(0::nat, LBrace), (2, Str), (5, Colon)])
   \<and> \<not> viable (map snd [(0::nat, LBrace), (2, Str), (5, Colon)] @ [RBrace])
   \<and> readJSON (\<lambda>f. invalid_multiline2) ''invalidJSON2''
       = Inl \<lparr>filePath = ''invalidJSON2'', line = 2, detail = []\<rparr>
   \<and> lex Outside 0 invalid_multiline =
       [(0, LBrace), (18, Str), (23, Colon), (25, Num), (30, Comma), (48, Str), (55, Colon),
        (57, Lit)] @ (61, Comma) # (75, RBrace) # []
   \<and> viable (map snd [(0::nat, LBrace), (18, Str), (23, Colon), (25, Num), (30, Comma), (48, Str),
                      (55, Colon), (57, Lit)] @ [Comma])
   \<and> readJSON (\<lambda>f. invalid_multiline) ''invalidJSON''
       = Inl \<lparr>filePath = ''invalidJSON'', line = 4, detail = []\<rparr>
   \<and> well_formed valid_document
   \<and> readJSON (\<lambda>f. valid_document) ''validJSONStr'' = Inr ()
   \<and> unfinished_array \<noteq> [] \<and> \<not> well_formed unfinished_array
   \<and> readJSON (\<lambda>f. unfinished_array) ''unfinished''
       = Inl \<lparr>filePath = ''unfinished'', line = 2, detail = []\<rparr>"
proof -
  note general = readJSON_parse_errors
  have single: "\<exists>e. readJSON (\<lambda>f. invalid_single_line) ''invalidJSON_no_newline'' = Inl e
      \<and> filePath e = ''invalidJSON_no_newline'' \<and> line e = 1"
    using general[where content = invalid_single_line and p = "''invalidJSON_no_newline''"]
      unit_test_well_formed(1,2) by blast
  have escape: "\<exists>e. readJSON (\<lambda>f. bad_escape) ''escape'' = Inl e
      \<and> filePath e = ''escape'' \<and> line e = 1"
    using general[where content = bad_escape and p = "''escape''"]
      unit_test_well_formed(3,4) by blast
  have token: "readJSON (\<lambda>f. invalid_multiline2) ''invalidJSON2'' =
      Inl \<lparr>filePath = ''invalidJSON2'',
           line = Suc (length (filter (\<lambda>c. c = CHR 0x0A) (take 6 invalid_multiline2))),
           detail = []\<rparr>"
    using general[where content = invalid_multiline2 and p = "''invalidJSON2''"
        and pre = "[(0, LBrace), (2, Str), (5, Colon)]" and k = 6 and tk = RBrace and post = "[]"]
      unit_test_tokens(1) unit_test_viable(1,2) by blast
  have comma: "readJSON (\<lambda>f. invalid_multiline) ''invalidJSON'' =
      Inl \<lparr>filePath = ''invalidJSON'',
           line = Suc (length (filter (\<lambda>c. c = CHR 0x0A) (take 75 invalid_multiline))),
           detail = []\<rparr>"
    using general[where content = invalid_multiline and p = "''invalidJSON''"
        and before = "[(0, LBrace), (18, Str), (23, Colon), (25, Num), (30, Comma), (48, Str),
                       (55, Colon), (57, Lit)]" and i = 61 and j = 75 and after = "[]"]
      unit_test_tokens(2) unit_test_viable(3) by blast
  have accepted: "readJSON (\<lambda>f. valid_document) ''validJSONStr'' = Inr ()"
    using general[where content = valid_document and p = "''validJSONStr''"]
      unit_test_well_formed(6) by (auto simp: valid_document_def)
  have ended: "readJSON (\<lambda>f. unfinished_array) ''unfinished''
       = Inl \<lparr>filePath = ''unfinished'', line = 2, detail = []\<rparr>"
    by (simp add: json_eval unfinished_array_def)
  have l2: "Suc (length (filter (\<lambda>c. c = CHR 0x0A) (take 6 invalid_multiline2))) = 2"
    by (simp add: invalid_multiline2_def)
  have l4: "Suc (length (filter (\<lambda>c. c = CHR 0x0A) (take 75 invalid_multiline))) = 4"
    by (simp add: invalid_multiline_def)
  have ne: "invalid_single_line \<noteq> []" "bad_escape \<noteq> []"
    by (simp_all add: invalid_single_line_def bad_escape_def)
  from single ne(1) have s1: "readJSON (\<lambda>f. invalid_single_line) ''invalidJSON_no_newline''
       = Inl \<lparr>filePath = ''invalidJSON_no_newline'', line = 1, detail = []\<rparr>"
    by (auto simp: readJSON_def parseJSON_def split: if_splits option.splits)
  from escape ne(2) have s2: "readJSON (\<lambda>f. bad_escape) ''escape''
       = Inl \<lparr>filePath = ''escape'', line = 1, detail = []\<rparr>"
    by (auto simp: readJSON_def parseJSON_def split: if_splits option.splits)
  from s1 s2 token comma accepted ended l2 l4 unit_test_tokens unit_test_viable
    unit_test_well_formed
  show ?thesis by simp
qed

text \<open>
  The claim as stated fails on other texts of four lines with a comma before the closing
  brace: when the brace is on the third line, the error is at line 3.
\<close>

theorem comma_before_brace_on_third_line:
  "length (filter (\<lambda>c. c = CHR 0x0A) brace_on_third_line) = 3
   \<and> readJSON (\<lambda>f. brace_on_third_line) ''invalidJSON''
       = Inl \<lparr>filePath = ''invalidJSON'', line = 3, detail = []\<rparr>
   \<and> length (filter (\<lambda>c. c = CHR 0x0A) brace_in_array) = 3
   \<and> readJSON (\<lambda>f. brace_in_array) ''invalidJSON''
       = Inl \<lparr>filePath = ''invalidJSON'', line = 3, detail = []\<rparr>"
  by (simp add: json_eval brace_on_third_line_def brace_in_array_def)

end
